theory Spec2Isabelle
  imports
    Main
    "HOL-Library.Multiset"
    "HOL-Library.AList"
    "HOL-Library.Char_ord"
    "HOL-Library.List_Lexorder"
    "HOL-Library.Product_Lexorder"
begin

section \<open>Data model of \<open>src/utils/localizedTypes.ts\<close>\<close>

text \<open>
  An \<open>Id\<close> is a JavaScript number holding an integer: it is modelled as \<open>int\<close>.
  An \<open>IdDict<T>\<close> is an object keyed by ids. Where the code only reads and writes single
  keys (\<open>idIndex\<close>, \<open>countsById\<close>, the memo of the aggregation) it is a map; where
  the code enumerates the keys (\<open>for (const id in childrenById)\<close>) it is an association
  list in insertion order with one entry per key.
\<close>

type_synonym Id = int

type_synonym 'a IdDict = "Id \<rightharpoonup> 'a"

type_synonym ChildrenById = "(Id \<times> Id list) list"

definition PENDING_ID :: Id where
  "PENDING_ID = - 1"

text \<open>
  Modelled from the spec: the raw schema record \<open>components['schemas']['Type']\<close> of
  \<open>./apiSchema\<close>, which the source imports and which is not part of the sources at hand.
  The spec gives its fields as \<open>{id, parent_id?, pending?, scientific_names?,
  common_names? (mapping language \<rightarrow> ordered names), taxonomic_rank?, urls?}\<close>; an
  optional field that is absent is \<open>None\<close>.
\<close>

record SchemaType =
  id_st :: Id
  parent_id :: "Id option"
  pending :: "bool option"
  scientific_names :: "string list option"
  common_names :: "(string \<times> string list) list option"
  taxonomic_rank :: "int option"
  urls_st :: "(string \<times> string) list option"

record LocalizedType =
  id_lt :: Id
  parentId :: Id
  scientificName :: string
  commonName :: string
  taxonomicRank :: int
  urls :: "(string \<times> string) list"

record TypeSelectMenuEntry =
  value_me :: Id
  label :: string
  scientificName_me :: string
  commonName_me :: string
  taxonomicRank_me :: int

record TypesAccess =
  localizedTypes :: "LocalizedType list"
  idIndex :: "nat IdDict"
  childrenById :: ChildrenById

record TypesFrequency = TypesAccess +
  countsById :: "int IdDict"
  aggregatedCountsById :: "int IdDict"

section \<open>Localizer\<close>

text \<open>\<open>xs?.[0] || ''\<close>: the first entry, the empty string when there is none.\<close>

definition firstOrEmpty :: "string list option \<Rightarrow> string" where
  "firstOrEmpty xs = (case xs of None \<Rightarrow> [] | Some [] \<Rightarrow> [] | Some (x # _) \<Rightarrow> x)"

text \<open>\<open>type.common_names?.[language]\<close>\<close>

definition namesIn :: "SchemaType \<Rightarrow> string \<Rightarrow> string list option" where
  "namesIn t language =
     (case common_names t of None \<Rightarrow> None | Some names \<Rightarrow> map_of names language)"

text \<open>\<open>x || 0\<close> on an optional number.\<close>

definition orZero :: "int option \<Rightarrow> int" where
  "orZero x = (case x of None \<Rightarrow> 0 | Some v \<Rightarrow> v)"

definition localize :: "SchemaType \<Rightarrow> string \<Rightarrow> LocalizedType" where
  "localize t language =
     (let scientificName0 = firstOrEmpty (scientific_names t);
          commonName0 = firstOrEmpty (namesIn t language);
          commonName1 =
            (if scientificName0 = [] \<and> commonName0 = []
             then firstOrEmpty (namesIn t ''en'') else commonName0)
      in \<lparr> id_lt = id_st t,
           parentId = (if pending t = Some True then PENDING_ID else orZero (parent_id t)),
           scientificName = scientificName0,
           commonName = commonName1,
           taxonomicRank = orZero (taxonomic_rank t),
           urls = (case urls_st t of None \<Rightarrow> [] | Some u \<Rightarrow> u) \<rparr>)"

section \<open>Index builder\<close>

text \<open>
  \<open>childrenById[id]?.forEach\<close> and \<open>!childrenById[parentId]\<close> read the entry of a key;
  an absent key has no children.
\<close>

definition childrenOf :: "ChildrenById \<Rightarrow> Id \<Rightarrow> Id list" where
  "childrenOf cb k = (case map_of cb k of None \<Rightarrow> [] | Some cs \<Rightarrow> cs)"

text \<open>
  Lines 55 to 58: create the entry of the parent when it has none (an existing array,
  also an empty one, is truthy and is kept), then push the child. A new key goes to the
  end of the object's keys; an existing key keeps its place.
\<close>

definition pushChild :: "ChildrenById \<Rightarrow> Id \<Rightarrow> Id \<Rightarrow> ChildrenById" where
  "pushChild cb p c = AList.update p (childrenOf cb p @ [c]) cb"

text \<open>The body of the \<open>forEach((type, index) => ...)\<close> loop of lines 53 to 59.\<close>

definition indexStep ::
  "nat IdDict \<times> ChildrenById \<Rightarrow> LocalizedType \<times> nat \<Rightarrow> nat IdDict \<times> ChildrenById" where
  "indexStep acc ti =
     (case acc of (ii, cb) \<Rightarrow>
        (case ti of (type, index) \<Rightarrow>
           (ii(id_lt type \<mapsto> index), pushChild cb (parentId type) (id_lt type))))"

definition buildIndices :: "LocalizedType list \<Rightarrow> nat IdDict \<times> ChildrenById" where
  "buildIndices lts = foldl indexStep (Map.empty, []) (zip lts [0..<length lts])"

definition createTypesAccess :: "LocalizedType list \<Rightarrow> TypesAccess" where
  "createTypesAccess lts =
     (case buildIndices lts of (ii, cb) \<Rightarrow>
        \<lparr> localizedTypes = lts, idIndex = ii, childrenById = cb \<rparr>)"

section \<open>TypesAccess\<close>

definition toMenuEntry :: "LocalizedType \<Rightarrow> TypeSelectMenuEntry" where
  "toMenuEntry t =
     \<lparr> value_me = id_lt t,
       label =
         (if scientificName t \<noteq> [] \<and> commonName t \<noteq> []
          then scientificName t @ '' ('' @ commonName t @ '')''
          else if scientificName t \<noteq> [] then scientificName t
          else [CHR 0x22] @ commonName t @ [CHR 0x22]),
       scientificName_me = scientificName t,
       commonName_me = commonName t,
       taxonomicRank_me = taxonomicRank t \<rparr>"

text \<open>
  \<open>this.localizedTypes[this.idIndex[id]]\<close>: an array read at an index that is
  \<open>undefined\<close> or past the end gives \<open>undefined\<close>, here \<open>None\<close>.
\<close>

definition arrayAt :: "'a list \<Rightarrow> nat option \<Rightarrow> 'a option" where
  "arrayAt xs i = (case i of None \<Rightarrow> None | Some n \<Rightarrow> if n < length xs then Some (xs ! n) else None)"

definition getType :: "'a TypesAccess_scheme \<Rightarrow> Id \<Rightarrow> LocalizedType option" where
  "getType this i = arrayAt (localizedTypes this) (idIndex this i)"

definition getCommonName :: "'a TypesAccess_scheme \<Rightarrow> Id \<Rightarrow> string" where
  "getCommonName this i =
     (case arrayAt (localizedTypes this) (idIndex this i) of Some t \<Rightarrow> commonName t | None \<Rightarrow> [])"

definition getScientificName :: "'a TypesAccess_scheme \<Rightarrow> Id \<Rightarrow> string" where
  "getScientificName this i =
     (case arrayAt (localizedTypes this) (idIndex this i) of Some t \<Rightarrow> scientificName t | None \<Rightarrow> [])"

definition asMenuEntries :: "'a TypesAccess_scheme \<Rightarrow> TypeSelectMenuEntry list" where
  "asMenuEntries this = map toMenuEntry (localizedTypes this)"

definition getMenuEntry :: "'a TypesAccess_scheme \<Rightarrow> Id \<Rightarrow> TypeSelectMenuEntry option" where
  "getMenuEntry this i =
     (case arrayAt (localizedTypes this) (idIndex this i) of Some t \<Rightarrow> Some (toMenuEntry t) | None \<Rightarrow> None)"

text \<open>
  \<open>TypesAccess.filter\<close> (lines 113 to 127) repeats the loop of the index builder over the
  filtered list.
\<close>

definition filter_ta :: "TypesAccess \<Rightarrow> (LocalizedType \<Rightarrow> bool) \<Rightarrow> TypesAccess" where
  "filter_ta this predicate =
     (let filteredTypes = filter predicate (localizedTypes this) in
      (case foldl indexStep (Map.empty, []) (zip filteredTypes [0..<length filteredTypes]) of
         (newIdIndex, newChildrenById) \<Rightarrow>
           \<lparr> localizedTypes = filteredTypes, idIndex = newIdIndex,
             childrenById = newChildrenById \<rparr>))"

definition onlyAllowedParents :: "TypesAccess \<Rightarrow> TypesAccess" where
  "onlyAllowedParents this =
     filter_ta this (\<lambda>t. taxonomicRank t \<noteq> 9 \<and> id_lt t \<noteq> PENDING_ID)"

definition addType :: "'a TypesAccess_scheme \<Rightarrow> SchemaType \<Rightarrow> string \<Rightarrow> TypesAccess" where
  "addType this newType language =
     createTypesAccess (localizedTypes this @ [localize newType language])"

section \<open>Aggregation engine\<close>

text \<open>
  Counts are JavaScript numbers holding integers, and the model adds them as integers.
  The code adds doubles: its sum is the integer sum whenever the two operands and the
  exact sum are at most \<open>2^53\<close> in magnitude, and is rounded beyond. A statement
  about the exact value of a sum therefore assumes that bound (\<open>safeSums\<close> below).
  \<open>countsById[id] ?? 0\<close>, \<open>countsById[id] || 0\<close> and
  \<open>aggregatedCountsById[id] || 0\<close> read a key and give 0 when it is absent;
  \<open>result[id]\<close> in \<open>_getTotalCount\<close> is only read after line 152 has written the
  key.
\<close>

definition numAt :: "int IdDict \<Rightarrow> Id \<Rightarrow> int" where
  "numAt m k = (case m k of None \<Rightarrow> 0 | Some v \<Rightarrow> v)"

text \<open>
  \<open>_getTotalCount\<close> (lines 143 to 157) mutates the memo \<open>result\<close> and returns a
  number: the model returns the memo together with the number. \<open>forEachChild\<close> is the
  \<open>forEach\<close> loop of lines 153 to 155 over the children that are left;
  \<open>result[id] += f()\<close> reads \<open>result[id]\<close> before it calls \<open>f\<close>. The memo
  entry of \<open>id\<close> is written before the children are visited, so a call on an id
  that is being visited further up returns the partial sum stored so far.
\<close>

function getTotalCount :: "int IdDict \<Rightarrow> Id \<Rightarrow> ChildrenById \<Rightarrow> int IdDict \<Rightarrow> int IdDict \<times> int"
  and forEachChild :: "int IdDict \<Rightarrow> Id \<Rightarrow> Id list \<Rightarrow> ChildrenById \<Rightarrow> int IdDict \<Rightarrow> int IdDict"
where
  "getTotalCount result i cb counts =
     (case result i of
        Some v \<Rightarrow> (result, v)
      | None \<Rightarrow>
          (let result' = forEachChild (result(i \<mapsto> numAt counts i)) i (childrenOf cb i) cb counts
           in (result', numAt result' i)))"
| "forEachChild result i [] cb counts = result"
| "forEachChild result i (childId # rest) cb counts =
     (let old = numAt result i in
      (case getTotalCount result childId cb counts of
         (result', t) \<Rightarrow> forEachChild (result'(i \<mapsto> old + t)) i rest cb counts))"
  by pat_completeness auto

text \<open>
  The recursion is nested: the memo handed to the rest of the loop is the one a
  recursive call returned. Termination needs that a call never removes a key.
\<close>

lemma dom_mono_partial:
  "getTotalCount_forEachChild_dom (Inl (result, i, cb, counts)) \<Longrightarrow>
     dom result \<subseteq> dom (fst (getTotalCount result i cb counts))"
  "getTotalCount_forEachChild_dom (Inr (result, i, cs, cb, counts)) \<Longrightarrow>
     dom result \<subseteq> dom (forEachChild result i cs cb counts)"
proof (induct rule: getTotalCount_forEachChild.pinduct)
  case (1 result i cb counts)
  show ?case
  proof (cases "result i")
    case None
    have "dom result \<subseteq> dom (result(i \<mapsto> numAt counts i))" by auto
    also have "\<dots> \<subseteq> dom (forEachChild (result(i \<mapsto> numAt counts i)) i (childrenOf cb i) cb counts)"
      using "1.hyps"(2) [OF None] .
    finally show ?thesis
      using None "1.hyps"(1) by (simp add: getTotalCount.psimps Let_def)
  next
    case (Some v)
    then show ?thesis using "1.hyps"(1) by (simp add: getTotalCount.psimps)
  qed
next
  case (2 result i cb counts)
  then show ?case by (simp add: forEachChild.psimps)
next
  case (3 result i childId rest cb counts)
  obtain r t where rt: "getTotalCount result childId cb counts = (r, t)"
    by (cases "getTotalCount result childId cb counts")
  have a: "dom result \<subseteq> dom r"
    using "3.hyps"(2) [OF refl] rt by simp
  have b: "dom (r(i \<mapsto> numAt result i + t)) \<subseteq>
      dom (forEachChild (r(i \<mapsto> numAt result i + t)) i rest cb counts)"
    using "3.hyps"(3) [OF refl rt [symmetric]] .
  have "dom result \<subseteq> dom (r(i \<mapsto> numAt result i + t))" using a by auto
  from this b have "dom result \<subseteq> dom (forEachChild (r(i \<mapsto> numAt result i + t)) i rest cb counts)"
    by (rule subset_trans)
  then show ?case
    using "3.hyps"(1) rt by (simp add: forEachChild.psimps Let_def)
qed

text \<open>The keys of \<open>childrenById\<close> that the memo does not hold yet.\<close>

definition liveKeys :: "ChildrenById \<Rightarrow> int IdDict \<Rightarrow> Id set" where
  "liveKeys cb result = {k \<in> set (map fst cb). k \<notin> dom result}"

lemma finite_liveKeys: "finite (liveKeys cb result)"
  by (simp add: liveKeys_def)

lemma liveKeys_antimono:
  "dom result \<subseteq> dom result' \<Longrightarrow> card (liveKeys cb result') \<le> card (liveKeys cb result)"
  by (rule card_mono [OF finite_liveKeys]) (auto simp: liveKeys_def)

lemma childrenOf_key: "childrenOf cb i \<noteq> [] \<Longrightarrow> i \<in> set (map fst cb)"
proof -
  assume "childrenOf cb i \<noteq> []"
  then have "map_of cb i \<noteq> None"
    by (auto simp: childrenOf_def split: option.splits)
  then show ?thesis
    by (simp add: map_of_eq_None_iff)
qed

lemma liveKeys_visit:
  assumes "childrenOf cb i \<noteq> []" and "result i = None"
  shows "card (liveKeys cb (result(i \<mapsto> v))) < card (liveKeys cb result)"
proof (rule psubset_card_mono [OF finite_liveKeys])
  have "i \<in> liveKeys cb result"
    using assms childrenOf_key [of cb i] by (auto simp: liveKeys_def)
  moreover have "i \<notin> liveKeys cb (result(i \<mapsto> v))"
    by (simp add: liveKeys_def)
  moreover have "liveKeys cb (result(i \<mapsto> v)) \<subseteq> liveKeys cb result"
    by (auto simp: liveKeys_def)
  ultimately show "liveKeys cb (result(i \<mapsto> v)) \<subset> liveKeys cb result"
    by blast
qed

termination getTotalCount
proof (relation "measures [
    (\<lambda>x. case x of
        Inl (result, i, cb, counts) \<Rightarrow> 2 * card (liveKeys cb result) + 1
      | Inr (result, i, cs, cb, counts) \<Rightarrow> (if cs = [] then 0 else 2 * card (liveKeys cb result) + 2)),
    (\<lambda>x. case x of
        Inl (result, i, cb, counts) \<Rightarrow> 0
      | Inr (result, i, cs, cb, counts) \<Rightarrow> length cs)]", goal_cases)
  case 1
  then show ?case by simp
next
  case (2 result i cb counts)
  then show ?case
    using liveKeys_visit [of cb i result "numAt counts i"] by auto
next
  case (3 result i childId rest cb counts)
  then show ?case by simp
next
  case (4 result i childId rest cb counts old r t)
  have "fst (getTotalCount result childId cb counts) = r"
    using "4"(2) [symmetric] by simp
  then have "dom result \<subseteq> dom r"
    using dom_mono_partial(1) [OF "4"(3)] by simp
  then have "dom result \<subseteq> dom (r(i \<mapsto> old + t))"
    by auto
  from liveKeys_antimono [OF this, of cb] show ?case
    by auto
qed

declare getTotalCount.simps [simp del]

text \<open>
  \<open>for (const id in childrenById)\<close> enumerates the keys of an object: first the keys
  that are array indices (integers from 0 to \<open>2^32 - 2\<close>) in ascending order, then
  the other keys (such as \<open>-1\<close>) in insertion order.
\<close>

definition isArrayIndex :: "Id \<Rightarrow> bool" where
  "isArrayIndex k = (0 \<le> k \<and> k < 2 ^ 32 - 1)"

definition forInKeys :: "ChildrenById \<Rightarrow> Id list" where
  "forInKeys cb =
     sort (filter isArrayIndex (map fst cb)) @ filter (\<lambda>k. \<not> isArrayIndex k) (map fst cb)"

definition calculateAggregatedCounts :: "ChildrenById \<Rightarrow> int IdDict \<Rightarrow> int IdDict" where
  "calculateAggregatedCounts cb counts =
     foldl (\<lambda>result i. fst (getTotalCount result i cb counts)) Map.empty (forInKeys cb)"

subsection \<open>The same recursion with a bounded call stack\<close>

text \<open>
  \<open>depth\<close> is the number of nested activations of \<open>_getTotalCount\<close> the stack still
  has room for; \<open>None\<close> is the stack overflow. A recursion that is unbounded on some
  input returns \<open>None\<close> there for every \<open>depth\<close>.
\<close>

fun getTotalCountD ::
    "nat \<Rightarrow> int IdDict \<Rightarrow> Id \<Rightarrow> ChildrenById \<Rightarrow> int IdDict \<Rightarrow> (int IdDict \<times> int) option"
  and forEachChildD ::
    "nat \<Rightarrow> int IdDict \<Rightarrow> Id \<Rightarrow> Id list \<Rightarrow> ChildrenById \<Rightarrow> int IdDict \<Rightarrow> int IdDict option"
where
  "getTotalCountD 0 result i cb counts = None"
| "getTotalCountD (Suc depth) result i cb counts =
     (case result i of
        Some v \<Rightarrow> Some (result, v)
      | None \<Rightarrow>
          (case forEachChildD depth (result(i \<mapsto> numAt counts i)) i (childrenOf cb i) cb counts of
             None \<Rightarrow> None
           | Some result' \<Rightarrow> Some (result', numAt result' i)))"
| "forEachChildD depth result i [] cb counts = Some result"
| "forEachChildD depth result i (childId # rest) cb counts =
     (let old = numAt result i in
      (case getTotalCountD depth result childId cb counts of
         None \<Rightarrow> None
       | Some (result', t) \<Rightarrow> forEachChildD depth (result'(i \<mapsto> old + t)) i rest cb counts))"

fun forInD ::
  "nat \<Rightarrow> int IdDict \<Rightarrow> Id list \<Rightarrow> ChildrenById \<Rightarrow> int IdDict \<Rightarrow> int IdDict option" where
  "forInD depth result [] cb counts = Some result"
| "forInD depth result (k # ks) cb counts =
     (case getTotalCountD depth result k cb counts of
        None \<Rightarrow> None
      | Some (result', _) \<Rightarrow> forInD depth result' ks cb counts)"

definition calculateAggregatedCountsD ::
  "nat \<Rightarrow> ChildrenById \<Rightarrow> int IdDict \<Rightarrow> int IdDict option" where
  "calculateAggregatedCountsD depth cb counts = forInD depth Map.empty (forInKeys cb) cb counts"

section \<open>TypesFrequency\<close>

text \<open>The constructor of lines 184 to 196.\<close>

definition newTypesFrequency ::
  "LocalizedType list \<Rightarrow> nat IdDict \<Rightarrow> ChildrenById \<Rightarrow> int IdDict \<Rightarrow> TypesFrequency" where
  "newTypesFrequency lts ii cb counts =
     \<lparr> localizedTypes = lts, idIndex = ii, childrenById = cb,
       countsById = counts,
       aggregatedCountsById = calculateAggregatedCounts cb counts \<rparr>"

definition createTypesFrequency :: "'a TypesAccess_scheme \<Rightarrow> int IdDict \<Rightarrow> TypesFrequency" where
  "createTypesFrequency typesAccess counts =
     newTypesFrequency (localizedTypes typesAccess) (idIndex typesAccess)
       (childrenById typesAccess) counts"

definition getCount :: "TypesFrequency \<Rightarrow> Id \<Rightarrow> int" where
  "getCount this i = numAt (countsById this) i"

definition getAggregatedCount :: "TypesFrequency \<Rightarrow> Id \<Rightarrow> int" where
  "getAggregatedCount this i = numAt (aggregatedCountsById this) i"

text \<open>
  The loop body of \<open>TypesFrequency.filter\<close> (lines 210 to 217).
  \<open>newCountsById[type.id] = this.countsById[type.id]\<close> copies the entry; copying an
  absent entry stores \<open>undefined\<close>, which every reader of the counts (\<open>??\<close>,
  \<open>||\<close>) treats as an absent key, and the model leaves the key absent.
\<close>

definition freqStep ::
  "int IdDict \<Rightarrow> nat IdDict \<times> int IdDict \<times> ChildrenById \<Rightarrow> LocalizedType \<times> nat \<Rightarrow>
     nat IdDict \<times> int IdDict \<times> ChildrenById" where
  "freqStep thisCounts acc ti =
     (case acc of (ii, nc, cb) \<Rightarrow>
        (case ti of (type, index) \<Rightarrow>
           (ii(id_lt type \<mapsto> index),
            nc(id_lt type := thisCounts (id_lt type)),
            pushChild cb (parentId type) (id_lt type))))"

definition filter_tf :: "TypesFrequency \<Rightarrow> (LocalizedType \<Rightarrow> bool) \<Rightarrow> TypesFrequency" where
  "filter_tf this predicate =
     (let filteredTypes = filter predicate (localizedTypes this) in
      (case foldl (freqStep (countsById this)) (Map.empty, Map.empty, [])
              (zip filteredTypes [0..<length filteredTypes]) of
         (newIdIndex, newCountsById, newChildrenById) \<Rightarrow>
           newTypesFrequency filteredTypes newIdIndex newChildrenById newCountsById))"

definition dropZeroCounts :: "TypesFrequency \<Rightarrow> TypesFrequency" where
  "dropZeroCounts this = filter_tf this (\<lambda>localizedType. 0 < getAggregatedCount this (id_lt localizedType))"

section \<open>Display order and the factory\<close>

text \<open>
  \<open>sortBy\<close> is lodash's: a stable sort, ascending in the tuple of the iteratees'
  values, compared from the first to the last. \<open>false\<close> sorts before \<open>true\<close>, strings
  are compared by their code units, numbers by their value. Strings are modelled as
  lists of characters in their lexicographic order.
\<close>

definition displayKey :: "LocalizedType \<Rightarrow> bool \<times> string \<times> int \<times> string" where
  "displayKey t = (scientificName t = [], scientificName t, - taxonomicRank t, commonName t)"

definition toDisplayOrder :: "LocalizedType list \<Rightarrow> LocalizedType list" where
  "toDisplayOrder lts = sort_key displayKey lts"

text \<open>The record pushed by lines 248 to 255.\<close>

definition pendingReview :: LocalizedType where
  "pendingReview =
     \<lparr> id_lt = PENDING_ID, parentId = 0, scientificName = [],
       commonName = ''Pending Review'', taxonomicRank = 0, urls = [] \<rparr>"

definition typesAccessInLanguage :: "SchemaType list \<Rightarrow> string \<Rightarrow> TypesAccess" where
  "typesAccessInLanguage types language =
     (let localizedTypes0 = map (\<lambda>t. localize t language) types;
          localizedTypes1 =
            (if list_ex (\<lambda>t. pending t = Some True) types
             then localizedTypes0 @ [pendingReview] else localizedTypes0)
      in createTypesAccess (toDisplayOrder localizedTypes1))"

section \<open>A store for the objects of \<open>addType\<close>\<close>

text \<open>
  Whether a call mutates its receiver is a question about shared objects, so
  \<open>createTypesAccess\<close>, \<open>addType\<close> and \<open>getType\<close> are modelled a second time, on a
  store. A reference is a position in the store and a new object is appended. The store
  holds the arrays of records, the two kinds of \<open>IdDict\<close>, the arrays of ids that a
  \<open>childrenById\<close> refers to, and the instances, which refer to their three fields. An
  array of records holds the records themselves: no function of the file writes a field
  of a \<open>LocalizedType\<close>.
\<close>

type_synonym ref = nat

datatype object =
    Records "LocalizedType list"
  | Index "nat IdDict"
  | Children "(Id \<times> ref) list"
  | Ids "Id list"
  | Instance ref ref ref

type_synonym store = "object list"

text \<open>\<open>{}\<close>, \<open>[]\<close>, \<open>[...xs, x]\<close> and \<open>new\<close> create an object.\<close>

definition alloc :: "store \<Rightarrow> object \<Rightarrow> store \<times> ref" where
  "alloc h obj = (h @ [obj], length h)"

text \<open>
  Reading a reference. A function on the store returns \<open>None\<close> when a reference does
  not hold an object of the kind the code expects there.
\<close>

definition deref :: "store \<Rightarrow> ref \<Rightarrow> object option" where
  "deref h r = (if r < length h then Some (h ! r) else None)"

text \<open>
  The body of the loop of lines 53 to 59: a write to the \<open>idIndex\<close> object, a new
  array and a write to the \<open>childrenById\<close> object when the parent has no entry, and a
  \<open>push\<close> on the array of the parent.
\<close>

definition stepS :: "store \<Rightarrow> ref \<Rightarrow> ref \<Rightarrow> LocalizedType \<Rightarrow> nat \<Rightarrow> store option" where
  "stepS h idIndexRef childrenRef type index =
     (case deref h idIndexRef of
        Some (Index m) \<Rightarrow>
          (let h1 = h[idIndexRef := Index (m(id_lt type \<mapsto> index))] in
           (case deref h1 childrenRef of
              Some (Children c) \<Rightarrow>
                (case (case map_of c (parentId type) of
                         Some a \<Rightarrow> (h1, a)
                       | None \<Rightarrow>
                           (case alloc h1 (Ids []) of
                              (h', a) \<Rightarrow>
                                (h'[childrenRef := Children (AList.update (parentId type) a c)], a))) of
                   (h2, arr) \<Rightarrow>
                     (case deref h2 arr of
                        Some (Ids xs) \<Rightarrow> Some (h2[arr := Ids (xs @ [id_lt type])])
                      | _ \<Rightarrow> None))
            | _ \<Rightarrow> None))
      | _ \<Rightarrow> None)"

fun forEachS :: "store \<Rightarrow> ref \<Rightarrow> ref \<Rightarrow> (LocalizedType \<times> nat) list \<Rightarrow> store option" where
  "forEachS h idIndexRef childrenRef [] = Some h"
| "forEachS h idIndexRef childrenRef ((type, index) # rest) =
     (case stepS h idIndexRef childrenRef type index of
        None \<Rightarrow> None
      | Some h' \<Rightarrow> forEachS h' idIndexRef childrenRef rest)"

text \<open>
  \<open>createTypesAccess\<close> creates the two indices, fills them and creates the instance,
  which refers to the array it was given.
\<close>

definition createTypesAccessS :: "store \<Rightarrow> ref \<Rightarrow> (store \<times> ref) option" where
  "createTypesAccessS h localizedTypesRef =
     (case deref h localizedTypesRef of
        Some (Records lts) \<Rightarrow>
          (case alloc h (Index Map.empty) of
             (h1, idIndexRef) \<Rightarrow>
               (case alloc h1 (Children []) of
                  (h2, childrenRef) \<Rightarrow>
                    (case forEachS h2 idIndexRef childrenRef (zip lts [0..<length lts]) of
                       None \<Rightarrow> None
                     | Some h3 \<Rightarrow>
                         Some (alloc h3 (Instance localizedTypesRef idIndexRef childrenRef)))))
      | _ \<Rightarrow> None)"

text \<open>\<open>addType\<close> copies the receiver's array into a new one with the new record at its end.\<close>

definition addTypeS :: "store \<Rightarrow> ref \<Rightarrow> SchemaType \<Rightarrow> string \<Rightarrow> (store \<times> ref) option" where
  "addTypeS h this newType language =
     (case deref h this of
        Some (Instance localizedTypesRef _ _) \<Rightarrow>
          (case deref h localizedTypesRef of
             Some (Records lts) \<Rightarrow>
               (case alloc h (Records (lts @ [localize newType language])) of
                  (h1, arr) \<Rightarrow> createTypesAccessS h1 arr)
           | _ \<Rightarrow> None)
      | _ \<Rightarrow> None)"

definition getTypeS :: "store \<Rightarrow> ref \<Rightarrow> Id \<Rightarrow> LocalizedType option" where
  "getTypeS h this i =
     (case deref h this of
        Some (Instance localizedTypesRef idIndexRef _) \<Rightarrow>
          (case (deref h localizedTypesRef, deref h idIndexRef) of
             (Some (Records lts), Some (Index m)) \<Rightarrow> arrayAt lts (m i)
           | _ \<Rightarrow> None)
      | _ \<Rightarrow> None)"

text \<open>The instance a reference stands for, as a value of the first model.\<close>

fun readChildren :: "store \<Rightarrow> (Id \<times> ref) list \<Rightarrow> ChildrenById option" where
  "readChildren h [] = Some []"
| "readChildren h ((k, a) # c) =
     (case deref h a of
        Some (Ids xs) \<Rightarrow>
          (case readChildren h c of Some cs \<Rightarrow> Some ((k, xs) # cs) | None \<Rightarrow> None)
      | _ \<Rightarrow> None)"

definition readInstance :: "store \<Rightarrow> ref \<Rightarrow> TypesAccess option" where
  "readInstance h this =
     (case deref h this of
        Some (Instance localizedTypesRef idIndexRef childrenRef) \<Rightarrow>
          (case (deref h localizedTypesRef, deref h idIndexRef, deref h childrenRef) of
             (Some (Records lts), Some (Index m), Some (Children c)) \<Rightarrow>
               (case readChildren h c of
                  Some cs \<Rightarrow> Some \<lparr> localizedTypes = lts, idIndex = m, childrenById = cs \<rparr>
                | None \<Rightarrow> None)
           | _ \<Rightarrow> None)
      | _ \<Rightarrow> None)"

text \<open>
  The state of the store while the loop runs: the two indices are objects created after
  the first \<open>base\<close> objects, and so is every array of ids the \<open>childrenById\<close> object
  refers to, each through one entry only.
\<close>

definition building ::
  "nat \<Rightarrow> store \<Rightarrow> ref \<Rightarrow> ref \<Rightarrow> nat IdDict \<Rightarrow> ChildrenById \<Rightarrow> bool" where
  "building base h idIndexRef childrenRef m cs \<longleftrightarrow>
     base \<le> idIndexRef \<and> idIndexRef < length h \<and>
     base \<le> childrenRef \<and> childrenRef < length h \<and>
     idIndexRef \<noteq> childrenRef \<and> h ! idIndexRef = Index m \<and>
     (\<exists>c. h ! childrenRef = Children c \<and> readChildren h c = Some cs \<and>
          distinct (map snd c) \<and>
          (\<forall>a \<in> snd ` set c. base \<le> a \<and> a \<noteq> idIndexRef \<and> a \<noteq> childrenRef))"

section \<open>The parent hierarchy\<close>

text \<open>
  The edges of the hierarchy as \<open>childrenById\<close> holds them, from a child to its
  parent; the ids below an id (itself included); and the edges as the records give them.
  A hierarchy is acyclic when its edge relation is.
\<close>

definition childRel :: "ChildrenById \<Rightarrow> (Id \<times> Id) set" where
  "childRel cb = {(c, p). c \<in> set (childrenOf cb p)}"

definition descendants :: "ChildrenById \<Rightarrow> Id \<Rightarrow> Id set" where
  "descendants cb i = {j. (j, i) \<in> (childRel cb)\<^sup>*}"

definition parentRel :: "LocalizedType list \<Rightarrow> (Id \<times> Id) set" where
  "parentRel lts = {(id_lt r, parentId r) | r. r \<in> set lts}"

text \<open>
  The memo is settled at \<open>i\<close> when it holds every id below \<open>i\<close>, each with its own
  count plus the stored totals of its children.
\<close>

definition settled :: "ChildrenById \<Rightarrow> int IdDict \<Rightarrow> int IdDict \<Rightarrow> Id \<Rightarrow> bool" where
  "settled cb counts result i \<longleftrightarrow>
     descendants cb i \<subseteq> dom result \<and>
     (\<forall>j \<in> descendants cb i.
        numAt result j = numAt counts j + sum_list (map (numAt result) (childrenOf cb j)))"

definition nonnegCounts :: "int IdDict \<Rightarrow> bool" where
  "nonnegCounts counts \<longleftrightarrow> (\<forall>k v. counts k = Some v \<longrightarrow> 0 \<le> v)"

text \<open>Every stored total is at least the raw count of its id.\<close>

definition aboveCounts :: "int IdDict \<Rightarrow> int IdDict \<Rightarrow> bool" where
  "aboveCounts counts result \<longleftrightarrow> (\<forall>k v. result k = Some v \<longrightarrow> numAt counts k \<le> v)"

text \<open>
  The sums of the aggregation are exact: at every id, the magnitudes of its own raw
  count and of the aggregated counts of its children add up to at most \<open>2^53\<close>. Every
  partial sum that line 154 forms at that id is then an integer of at most that
  magnitude, which a double holds exactly.
\<close>

definition safeSums :: "LocalizedType list \<Rightarrow> int IdDict \<Rightarrow> bool" where
  "safeSums lts counts \<longleftrightarrow>
     (\<forall>j. \<bar>numAt counts j\<bar> +
        sum_list (map (\<lambda>c. \<bar>getAggregatedCount (createTypesFrequency (createTypesAccess lts) counts) c\<bar>)
          (map id_lt (filter (\<lambda>r. parentId r = j) lts))) \<le> 2 ^ 53)"

section \<open>Example data\<close>

definition exType :: "Id \<Rightarrow> Id \<Rightarrow> LocalizedType" where
  "exType i p =
     \<lparr> id_lt = i, parentId = p, scientificName = [], commonName = [],
       taxonomicRank = 0, urls = [] \<rparr>"

text \<open>The chain A = 1 (a root), B = 2 (child of A), C = 3 (child of B).\<close>

definition exChain :: "LocalizedType list" where
  "exChain = [exType 1 0, exType 2 1, exType 3 2]"

definition exCounts :: "int IdDict" where
  "exCounts = [1 \<mapsto> 1, 2 \<mapsto> 2, 3 \<mapsto> 3]"

text \<open>Two records that name each other as parent.\<close>

definition exCycle :: "LocalizedType list" where
  "exCycle = [exType 1 2, exType 2 1]"

definition exNegative :: "int IdDict" where
  "exNegative = [1 \<mapsto> - 1]"

text \<open>Raw records with an English common name; records that differ in their names and rank.\<close>

definition exRaw :: "Id \<Rightarrow> bool option \<Rightarrow> SchemaType" where
  "exRaw i p =
     \<lparr> id_st = i, parent_id = None, pending = p, scientific_names = None,
       common_names = Some [(''en'', [''Apple''])], taxonomic_rank = None, urls_st = None \<rparr>"

definition exNamed :: "string \<Rightarrow> int \<Rightarrow> string \<Rightarrow> LocalizedType" where
  "exNamed s r c =
     \<lparr> id_lt = 1, parentId = 0, scientificName = s, commonName = c,
       taxonomicRank = r, urls = [] \<rparr>"

definition exNames :: "LocalizedType list" where
  "exNames =
     [exNamed [] 0 ''Zed'', exNamed ''Malus'' 1 ''Apple'', exNamed ''Malus'' 5 ''Crab'',
      exNamed ''Abies'' 0 ''Fir'', exNamed ''Malus'' 5 ''Bitter'']"

text \<open>
  The store after \<open>createTypesAccess\<close> on the chain: the instance is the object 6, and
  \<open>exInstance\<close> is the instance it stands for.
\<close>

definition exStore :: store where
  "exStore =
     [Records exChain, Index [1 \<mapsto> 0, 2 \<mapsto> 1, 3 \<mapsto> 2], Children [(0, 3), (1, 4), (2, 5)],
      Ids [1], Ids [2], Ids [3], Instance 0 1 2]"

definition exInstance :: TypesAccess where
  "exInstance =
     \<lparr> localizedTypes = exChain, idIndex = [1 \<mapsto> 0, 2 \<mapsto> 1, 3 \<mapsto> 2],
       childrenById = [(0, [1]), (1, [2]), (2, [3])] \<rparr>"

section \<open>Properties of the index builder\<close>

lemma foldl_indexStep_snoc:
  "foldl indexStep acc (zip (xs @ [x]) [n..<n + length (xs @ [x])]) =
   indexStep (foldl indexStep acc (zip xs [n..<n + length xs])) (x, n + length xs)"
proof -
  have "[n..<n + length (xs @ [x])] = [n..<n + length xs] @ [n + length xs]"
    by simp
  then show ?thesis
    by (simp del: upt_Suc)
qed

lemma buildIndices_snoc:
  "buildIndices (xs @ [x]) = indexStep (buildIndices xs) (x, length xs)"
  using foldl_indexStep_snoc [of "(Map.empty, [])" xs x 0]
  by (simp add: buildIndices_def)

lemma buildIndices_Nil: "buildIndices [] = (Map.empty, [])"
  by (simp add: buildIndices_def)

lemma fst_indexStep: "fst (indexStep acc (t, n)) = (fst acc)(id_lt t \<mapsto> n)"
  by (cases acc) (simp add: indexStep_def)

lemma snd_indexStep: "snd (indexStep acc (t, n)) = pushChild (snd acc) (parentId t) (id_lt t)"
  by (cases acc) (simp add: indexStep_def)

lemma childrenOf_pushChild:
  "childrenOf (pushChild cb p c) k = (if k = p then childrenOf cb p @ [c] else childrenOf cb k)"
  by (simp add: childrenOf_def pushChild_def update_conv')

lemma childrenOf_buildIndices:
  "childrenOf (snd (buildIndices lts)) k = map id_lt (filter (\<lambda>r. parentId r = k) lts)"
proof (induction lts arbitrary: k rule: rev_induct)
  case Nil
  show ?case by (simp add: buildIndices_Nil childrenOf_def)
next
  case (snoc x xs)
  then show ?case
    by (simp add: buildIndices_snoc snd_indexStep childrenOf_pushChild)
qed

lemma keys_pushChild:
  "set (map fst (pushChild cb p c)) = insert p (set (map fst cb))"
  by (simp add: pushChild_def dom_update)

lemma keys_buildIndices:
  "set (map fst (snd (buildIndices lts))) = parentId ` set lts"
proof (induction lts rule: rev_induct)
  case Nil
  show ?case by (simp add: buildIndices_Nil)
next
  case (snoc x xs)
  have "set (map fst (snd (indexStep (buildIndices xs) (x, length xs)))) =
        insert (parentId x) (set (map fst (snd (buildIndices xs))))"
    using keys_pushChild [of "snd (buildIndices xs)"] by (simp add: snd_indexStep)
  with snoc show ?case
    by (simp add: buildIndices_snoc)
qed

lemma idIndex_buildIndices_None:
  "(fst (buildIndices lts) i = None) = (i \<notin> id_lt ` set lts)"
proof (induction lts rule: rev_induct)
  case Nil
  show ?case by (simp add: buildIndices_Nil)
next
  case (snoc x xs)
  then show ?case
    by (auto simp: buildIndices_snoc fst_indexStep)
qed

lemma idIndex_buildIndices_Some:
  "fst (buildIndices lts) i = Some n \<Longrightarrow> n < length lts \<and> id_lt (lts ! n) = i"
proof (induction lts arbitrary: n rule: rev_induct)
  case Nil
  then show ?case by (simp add: buildIndices_Nil)
next
  case (snoc x xs)
  show ?case
  proof (cases "id_lt x = i")
    case True
    with snoc.prems have "n = length xs"
      by (simp add: buildIndices_snoc fst_indexStep)
    with True show ?thesis by simp
  next
    case False
    with snoc.prems have "fst (buildIndices xs) i = Some n"
      by (simp add: buildIndices_snoc fst_indexStep)
    from snoc.IH [OF this] show ?thesis
      by (simp add: nth_append)
  qed
qed

lemma filter_ta_createTypesAccess:
  "filter_ta this predicate = createTypesAccess (filter predicate (localizedTypes this))"
  by (simp add: filter_ta_def createTypesAccess_def buildIndices_def Let_def)

lemma localizedTypes_createTypesAccess [simp]:
  "localizedTypes (createTypesAccess lts) = lts"
  by (simp add: createTypesAccess_def split: prod.splits)

lemma idIndex_createTypesAccess:
  "idIndex (createTypesAccess lts) = fst (buildIndices lts)"
  by (simp add: createTypesAccess_def split: prod.splits)

lemma childrenById_createTypesAccess:
  "childrenById (createTypesAccess lts) = snd (buildIndices lts)"
  by (simp add: createTypesAccess_def split: prod.splits)

lemma getType_createTypesAccess_Some:
  assumes "i \<in> id_lt ` set L"
  shows "\<exists>r. getType (createTypesAccess L) i = Some r \<and> id_lt r = i \<and> r \<in> set L"
proof -
  from assms obtain n where n: "fst (buildIndices L) i = Some n"
    using idIndex_buildIndices_None [of L i] by auto
  from idIndex_buildIndices_Some [OF n] show ?thesis
    using n by (simp add: getType_def arrayAt_def idIndex_createTypesAccess)
qed

lemma arrayAt_createTypesAccess_None:
  assumes "i \<notin> id_lt ` set L"
  shows "arrayAt (localizedTypes (createTypesAccess L)) (idIndex (createTypesAccess L) i) = None"
  using assms idIndex_buildIndices_None [of L i]
  by (simp add: arrayAt_def idIndex_createTypesAccess)

lemma dom_idIndex_createTypesAccess:
  "dom (idIndex (createTypesAccess L)) = id_lt ` set L"
  using idIndex_buildIndices_None [of L]
  by (auto simp: idIndex_createTypesAccess dom_def)

section \<open>Properties of the aggregation engine\<close>

lemma descendants_refl: "i \<in> descendants cb i"
  by (simp add: descendants_def)

lemma descendants_trans: "j \<in> descendants cb i \<Longrightarrow> descendants cb j \<subseteq> descendants cb i"
  by (auto simp: descendants_def)

lemma descendants_child: "c \<in> set (childrenOf cb i) \<Longrightarrow> c \<in> descendants cb i"
  by (auto simp: descendants_def childRel_def)

lemma descendants_unfold:
  "descendants cb i = insert i (\<Union>c \<in> set (childrenOf cb i). descendants cb c)"
proof (intro equalityI subsetI)
  fix j assume "j \<in> descendants cb i"
  then have "(j, i) \<in> (childRel cb)\<^sup>*" by (simp add: descendants_def)
  then show "j \<in> insert i (\<Union>c \<in> set (childrenOf cb i). descendants cb c)"
  proof (cases rule: rtranclE)
    case base
    then show ?thesis by simp
  next
    case (step y)
    then have "y \<in> set (childrenOf cb i)" "j \<in> descendants cb y"
      by (simp_all add: childRel_def descendants_def)
    then show ?thesis by blast
  qed
next
  fix j assume "j \<in> insert i (\<Union>c \<in> set (childrenOf cb i). descendants cb c)"
  then show "j \<in> descendants cb i"
    using descendants_refl [of i cb] descendants_child [of _ cb i] descendants_trans [of _ cb i]
    by blast
qed

lemma acyclic_child_not_descendant:
  assumes "acyclic (childRel cb)" and "c \<in> set (childrenOf cb i)"
  shows "i \<notin> descendants cb c"
proof
  assume "i \<in> descendants cb c"
  then have "(i, c) \<in> (childRel cb)\<^sup>*" by (simp add: descendants_def)
  moreover have "(c, i) \<in> childRel cb" using assms(2) by (simp add: childRel_def)
  ultimately have "(i, i) \<in> (childRel cb)\<^sup>+" by (rule rtrancl_into_trancl1)
  with assms(1) show False by (simp add: acyclic_def)
qed

lemma settled_descendant:
  "settled cb counts result i \<Longrightarrow> j \<in> descendants cb i \<Longrightarrow> settled cb counts result j"
  using descendants_trans [of j cb i] by (auto simp: settled_def)

lemma settled_agree:
  assumes s: "settled cb counts result i"
    and a: "\<And>k. k \<in> descendants cb i \<Longrightarrow> result' k = result k"
  shows "settled cb counts result' i"
proof -
  have d: "descendants cb i \<subseteq> dom result'"
    using s a by (auto simp: settled_def dom_def)
  have "numAt result' j = numAt counts j + sum_list (map (numAt result') (childrenOf cb j))"
    if j: "j \<in> descendants cb i" for j
  proof -
    have "c \<in> descendants cb i" if "c \<in> set (childrenOf cb j)" for c
      using descendants_child [OF that] descendants_trans [OF j] by blast
    then have "numAt result' c = numAt result c" if "c \<in> set (childrenOf cb j)" for c
      using a that by (simp add: numAt_def)
    then have m: "map (numAt result) (childrenOf cb j) = map (numAt result') (childrenOf cb j)"
      by simp
    have "numAt result' j = numAt result j"
      using a [OF j] by (simp add: numAt_def)
    also have "\<dots> = numAt counts j + sum_list (map (numAt result) (childrenOf cb j))"
      using s j by (simp add: settled_def)
    finally show ?thesis
      by (simp only: m)
  qed
  with d show ?thesis by (simp add: settled_def)
qed

lemma settled_dom: "settled cb counts result i \<Longrightarrow> descendants cb i \<subseteq> dom result"
  by (simp add: settled_def)

lemma settled_update_outside:
  assumes "settled cb counts result j" and "i \<notin> descendants cb j"
  shows "settled cb counts (result(i \<mapsto> v)) j"
  using assms(1)
proof (rule settled_agree)
  fix k assume "k \<in> descendants cb j"
  with assms(2) have "k \<noteq> i" by blast
  then show "(result(i \<mapsto> v)) k = result k" by simp
qed

lemma aggregate_correct:
  shows
    "acyclic (childRel cb) \<Longrightarrow>
     (\<forall>j \<in> descendants cb i \<inter> dom result. settled cb counts result j) \<Longrightarrow>
       (\<forall>k \<in> dom result. fst (getTotalCount result i cb counts) k = result k) \<and>
       dom (fst (getTotalCount result i cb counts)) = dom result \<union> descendants cb i \<and>
       settled cb counts (fst (getTotalCount result i cb counts)) i \<and>
       snd (getTotalCount result i cb counts) = numAt (fst (getTotalCount result i cb counts)) i"
  and
    "acyclic (childRel cb) \<Longrightarrow> i \<in> dom result \<Longrightarrow>
     (\<forall>c \<in> set cs. i \<notin> descendants cb c) \<Longrightarrow>
     (\<forall>c \<in> set cs. \<forall>j \<in> descendants cb c \<inter> dom result. settled cb counts result j) \<Longrightarrow>
       (\<forall>k \<in> dom result - {i}. forEachChild result i cs cb counts k = result k) \<and>
       dom (forEachChild result i cs cb counts) = dom result \<union> (\<Union>c \<in> set cs. descendants cb c) \<and>
       (\<forall>c \<in> set cs. settled cb counts (forEachChild result i cs cb counts) c) \<and>
       numAt (forEachChild result i cs cb counts) i =
         numAt result i + sum_list (map (numAt (forEachChild result i cs cb counts)) cs)"
proof (induction result i cb counts and result i cs cb counts
    rule: getTotalCount_forEachChild.induct)
  case (1 result i cb counts)
  note ac = "1.prems"(1) and pre = "1.prems"(2)
  show ?case
  proof (cases "result i")
    case (Some v)
    then have g: "getTotalCount result i cb counts = (result, v)"
      by (simp add: getTotalCount.simps)
    have s: "settled cb counts result i"
      using pre Some descendants_refl [of i cb] by blast
    from settled_dom [OF s] have "dom result = dom result \<union> descendants cb i"
      by blast
    with s Some show ?thesis
      by (simp add: g numAt_def)
  next
    case None
    define r1 where "r1 = result(i \<mapsto> numAt counts i)"
    define r' where "r' = forEachChild r1 i (childrenOf cb i) cb counts"
    have g: "getTotalCount result i cb counts = (r', numAt r' i)"
      using None by (simp add: getTotalCount.simps r'_def r1_def Let_def)
    have nd: "i \<notin> descendants cb c" if "c \<in> set (childrenOf cb i)" for c
      using acyclic_child_not_descendant [OF ac that] .
    have pre1: "settled cb counts r1 j"
      if c: "c \<in> set (childrenOf cb i)" and j: "j \<in> descendants cb c" "j \<in> dom r1" for c j
    proof -
      have ji: "j \<noteq> i" using nd [OF c] j(1) by blast
      with j(2) have "j \<in> dom result" by (simp add: r1_def)
      moreover have "j \<in> descendants cb i"
        using descendants_child [OF c] descendants_trans [of c cb i] j(1) by blast
      ultimately have "settled cb counts result j" using pre by blast
      moreover have "i \<notin> descendants cb j"
        using descendants_trans [OF j(1)] nd [OF c] by blast
      ultimately show ?thesis
        unfolding r1_def by (rule settled_update_outside)
    qed
    have ih: "(\<forall>k \<in> dom r1 - {i}. r' k = r1 k) \<and>
        dom r' = dom r1 \<union> (\<Union>c \<in> set (childrenOf cb i). descendants cb c) \<and>
        (\<forall>c \<in> set (childrenOf cb i). settled cb counts r' c) \<and>
        numAt r' i = numAt r1 i + sum_list (map (numAt r') (childrenOf cb i))"
      unfolding r'_def r1_def
    proof (rule "1.IH" [OF None ac])
      show "i \<in> dom (result(i \<mapsto> numAt counts i))" by simp
      show "\<forall>c\<in>set (childrenOf cb i). i \<notin> descendants cb c" using nd by blast
      show "\<forall>c\<in>set (childrenOf cb i).
          \<forall>j\<in>descendants cb c \<inter> dom (result(i \<mapsto> numAt counts i)).
            settled cb counts (result(i \<mapsto> numAt counts i)) j"
        using pre1 unfolding r1_def by blast
    qed
    have agree: "\<forall>k \<in> dom result. r' k = result k"
    proof
      fix k assume k: "k \<in> dom result"
      with None have "k \<noteq> i" by auto
      with k have "k \<in> dom r1 - {i}" "r1 k = result k" by (auto simp: r1_def)
      with ih show "r' k = result k" by simp
    qed
    have d: "dom r' = dom result \<union> descendants cb i"
      using ih descendants_unfold [of cb i] by (auto simp: r1_def)
    have st: "settled cb counts r' i"
      unfolding settled_def
    proof (intro conjI ballI)
      show "descendants cb i \<subseteq> dom r'" using d by blast
    next
      fix j assume "j \<in> descendants cb i"
      then consider "j = i" | c where "c \<in> set (childrenOf cb i)" "j \<in> descendants cb c"
        using descendants_unfold [of cb i] by blast
      then show "numAt r' j = numAt counts j + sum_list (map (numAt r') (childrenOf cb j))"
      proof cases
        case 1
        have "numAt r1 i = numAt counts i" by (simp add: r1_def numAt_def)
        with ih 1 show ?thesis by simp
      next
        case 2
        with ih have "settled cb counts r' c" by blast
        with 2(2) show ?thesis by (simp add: settled_def)
      qed
    qed
    from agree d st show ?thesis
      by (simp add: g)
  qed
next
  case (2 result i cb counts)
  then show ?case by simp
next
  case (3 result i childId rest cb counts)
  note ac = "3.prems"(1) and idom = "3.prems"(2) and nd = "3.prems"(3) and pre = "3.prems"(4)
  define r1 where "r1 = fst (getTotalCount result childId cb counts)"
  define t where "t = snd (getTotalCount result childId cb counts)"
  define r2 where "r2 = r1(i \<mapsto> numAt result i + t)"
  define r' where "r' = forEachChild r2 i rest cb counts"
  have g: "(r1, t) = getTotalCount result childId cb counts"
    by (simp add: r1_def t_def)
  have f: "forEachChild result i (childId # rest) cb counts = r'"
    by (simp add: Let_def r'_def r2_def g [symmetric])
  have p: "(\<forall>k \<in> dom result. r1 k = result k) \<and>
      dom r1 = dom result \<union> descendants cb childId \<and>
      settled cb counts r1 childId \<and> t = numAt r1 childId"
    unfolding r1_def t_def
    using "3.IH"(1) [OF refl ac] pre by simp
  have ni: "i \<notin> descendants cb childId" using nd by simp
  have keep: "r2 k = r1 k" if "k \<noteq> i" for k
    using that by (simp add: r2_def)
  have pre2: "settled cb counts r2 j"
    if c: "c \<in> set rest" and j: "j \<in> descendants cb c" "j \<in> dom r2" for c j
  proof -
    have nij: "i \<notin> descendants cb j"
      using descendants_trans [OF j(1)] nd c by auto
    then have ji: "j \<noteq> i" using descendants_refl [of j cb] by auto
    with j(2) have "j \<in> dom r1" by (simp add: r2_def)
    with p consider "j \<in> dom result" | "j \<in> descendants cb childId" by blast
    then have "settled cb counts r1 j"
    proof cases
      case 1
      with pre c j(1) have s: "settled cb counts result j" by simp
      show ?thesis
      proof (rule settled_agree [OF s])
        fix k assume "k \<in> descendants cb j"
        with settled_dom [OF s] have "k \<in> dom result" by blast
        with p show "r1 k = result k" by blast
      qed
    next
      case 2
      with p show ?thesis using settled_descendant by blast
    qed
    then show ?thesis
      unfolding r2_def using nij by (rule settled_update_outside)
  qed
  have ih: "(\<forall>k \<in> dom r2 - {i}. r' k = r2 k) \<and>
      dom r' = dom r2 \<union> (\<Union>c \<in> set rest. descendants cb c) \<and>
      (\<forall>c \<in> set rest. settled cb counts r' c) \<and>
      numAt r' i = numAt r2 i + sum_list (map (numAt r') rest)"
    unfolding r'_def
  proof (rule "3.IH"(2) [OF refl _ ac, of r1 t, folded r2_def])
    show "(r1, t) = getTotalCount result childId cb counts" by (rule g)
    show "i \<in> dom r2" by (simp add: r2_def)
    show "\<forall>c\<in>set rest. i \<notin> descendants cb c" using nd by simp
    show "\<forall>c\<in>set rest. \<forall>j\<in>descendants cb c \<inter> dom r2. settled cb counts r2 j"
      using pre2 by blast
  qed
  have same: "r' k = r1 k" if "k \<in> dom r1" "k \<noteq> i" for k
  proof -
    from that have "k \<in> dom r2 - {i}" by (simp add: r2_def)
    with ih have "r' k = r2 k" by blast
    with keep [OF that(2)] show ?thesis by simp
  qed
  have agree: "\<forall>k \<in> dom result - {i}. r' k = result k"
  proof
    fix k assume k: "k \<in> dom result - {i}"
    with p have "k \<in> dom r1" "r1 k = result k" by auto
    with same [of k] k show "r' k = result k" by simp
  qed
  have d: "dom r' = dom result \<union> (\<Union>c \<in> set (childId # rest). descendants cb c)"
    using ih p idom by (auto simp: r2_def)
  have sc: "settled cb counts r' childId"
  proof (rule settled_agree)
    show "settled cb counts r1 childId" using p by simp
    fix k assume k: "k \<in> descendants cb childId"
    with ni have "k \<noteq> i" by blast
    moreover from k p have "k \<in> dom r1" by blast
    ultimately show "r' k = r1 k" by (rule same [rotated])
  qed
  have "r' childId = r1 childId"
    using same [of childId] p ni descendants_refl [of childId cb] by blast
  then have tc: "t = numAt r' childId"
    using p by (simp add: numAt_def)
  have "numAt r2 i = numAt result i + t"
    by (simp add: r2_def numAt_def)
  with ih tc have sum: "numAt r' i = numAt result i + sum_list (map (numAt r') (childId # rest))"
    by simp
  from agree d sc ih sum show ?case
    unfolding f by simp
qed

lemma forIn_correct:
  assumes ac: "acyclic (childRel cb)"
  shows "(\<forall>j \<in> dom result. settled cb counts result j) \<Longrightarrow>
     (\<forall>j \<in> dom (foldl (\<lambda>result i. fst (getTotalCount result i cb counts)) result ks).
        settled cb counts (foldl (\<lambda>result i. fst (getTotalCount result i cb counts)) result ks) j) \<and>
     dom (foldl (\<lambda>result i. fst (getTotalCount result i cb counts)) result ks) =
       dom result \<union> (\<Union>k \<in> set ks. descendants cb k)"
proof (induction ks arbitrary: result)
  case Nil
  then show ?case by simp
next
  case (Cons k ks)
  define r1 where "r1 = fst (getTotalCount result k cb counts)"
  have p: "(\<forall>j \<in> dom result. r1 j = result j) \<and>
      dom r1 = dom result \<union> descendants cb k \<and> settled cb counts r1 k"
    unfolding r1_def using aggregate_correct(1) [OF ac, of k result counts] Cons.prems by blast
  have inv: "\<forall>j \<in> dom r1. settled cb counts r1 j"
  proof
    fix j assume "j \<in> dom r1"
    with p consider "j \<in> dom result" | "j \<in> descendants cb k" by blast
    then show "settled cb counts r1 j"
    proof cases
      case 1
      with Cons.prems have s: "settled cb counts result j" by blast
      show ?thesis
      proof (rule settled_agree [OF s])
        fix x assume "x \<in> descendants cb j"
        with settled_dom [OF s] have "x \<in> dom result" by blast
        with p show "r1 x = result x" by blast
      qed
    next
      case 2
      with p show ?thesis using settled_descendant by blast
    qed
  qed
  from Cons.IH [OF inv] p show ?case
    by (auto simp: r1_def)
qed

lemma set_forInKeys: "set (forInKeys cb) = set (map fst cb)"
  by (auto simp: forInKeys_def)

lemma calculateAggregatedCounts_correct:
  assumes "acyclic (childRel cb)"
  shows "dom (calculateAggregatedCounts cb counts) = (\<Union>k \<in> set (map fst cb). descendants cb k)"
    and "j \<in> dom (calculateAggregatedCounts cb counts) \<Longrightarrow>
      numAt (calculateAggregatedCounts cb counts) j =
        numAt counts j + sum_list (map (numAt (calculateAggregatedCounts cb counts)) (childrenOf cb j))"
proof -
  have c: "(\<forall>j \<in> dom (calculateAggregatedCounts cb counts).
        settled cb counts (calculateAggregatedCounts cb counts) j) \<and>
      dom (calculateAggregatedCounts cb counts) = dom (Map.empty :: int IdDict) \<union> (\<Union>k \<in> set (forInKeys cb). descendants cb k)"
    unfolding calculateAggregatedCounts_def
    by (rule forIn_correct [OF assms]) simp
  then show "dom (calculateAggregatedCounts cb counts) = (\<Union>k \<in> set (map fst cb). descendants cb k)"
    by (simp add: set_forInKeys)
  assume "j \<in> dom (calculateAggregatedCounts cb counts)"
  with c have "settled cb counts (calculateAggregatedCounts cb counts) j" by blast
  then show "numAt (calculateAggregatedCounts cb counts) j =
        numAt counts j + sum_list (map (numAt (calculateAggregatedCounts cb counts)) (childrenOf cb j))"
    using descendants_refl [of j cb] by (simp add: settled_def)
qed

lemma childRel_buildIndices: "childRel (snd (buildIndices lts)) = parentRel lts"
  by (auto simp: childRel_def parentRel_def childrenOf_buildIndices)

lemma descendants_buildIndices:
  assumes "j \<in> descendants (snd (buildIndices lts)) k"
  shows "j = k \<or> j \<in> id_lt ` set lts"
proof -
  from assms have "(j, k) \<in> (childRel (snd (buildIndices lts)))\<^sup>*"
    by (simp add: descendants_def)
  then show ?thesis
  proof (cases rule: converse_rtranclE)
    case base
    then show ?thesis by simp
  next
    case (step y)
    then show ?thesis
      by (auto simp: childRel_buildIndices parentRel_def)
  qed
qed

lemma hierarchy_ids:
  "(\<Union>k \<in> set (map fst (snd (buildIndices lts))). descendants (snd (buildIndices lts)) k) =
     id_lt ` set lts \<union> parentId ` set lts"
  unfolding keys_buildIndices
proof (intro equalityI subsetI)
  fix j assume "j \<in> (\<Union>k \<in> parentId ` set lts. descendants (snd (buildIndices lts)) k)"
  then obtain k where "k \<in> parentId ` set lts" "j \<in> descendants (snd (buildIndices lts)) k"
    by blast
  with descendants_buildIndices [of j lts k] show "j \<in> id_lt ` set lts \<union> parentId ` set lts"
    by blast
next
  fix j assume "j \<in> id_lt ` set lts \<union> parentId ` set lts"
  then consider r where "r \<in> set lts" "j = id_lt r" | "j \<in> parentId ` set lts" by blast
  then show "j \<in> (\<Union>k \<in> parentId ` set lts. descendants (snd (buildIndices lts)) k)"
  proof cases
    case 1
    then have "j \<in> set (childrenOf (snd (buildIndices lts)) (parentId r))"
      by (simp add: childrenOf_buildIndices)
    from descendants_child [OF this] 1 show ?thesis
      by blast
  next
    case 2
    then show ?thesis
      using descendants_refl by blast
  qed
qed

lemma acyclicI_rank:
  fixes f :: "Id \<Rightarrow> nat"
  assumes "\<And>a b. (a, b) \<in> r \<Longrightarrow> f a < f b"
  shows "acyclic r"
proof (rule acyclic_subset [OF wf_acyclic [OF wf_measure [of f]]])
  show "r \<subseteq> measure f" using assms by auto
qed

lemma aggregated_createTypesFrequency:
  "aggregatedCountsById (createTypesFrequency (createTypesAccess lts) counts) =
     calculateAggregatedCounts (snd (buildIndices lts)) counts"
  by (simp add: createTypesFrequency_def newTypesFrequency_def childrenById_createTypesAccess)

lemma countsById_createTypesFrequency:
  "countsById (createTypesFrequency a counts) = counts"
  by (simp add: createTypesFrequency_def newTypesFrequency_def)

lemma dom_aggregated:
  assumes "acyclic (parentRel lts)"
  shows "dom (calculateAggregatedCounts (snd (buildIndices lts)) counts) =
     id_lt ` set lts \<union> parentId ` set lts"
  using calculateAggregatedCounts_correct(1) [of "snd (buildIndices lts)" counts] assms
  by (simp only: childRel_buildIndices hierarchy_ids)

lemma acyclic_exChain: "acyclic (parentRel exChain)"
proof (rule acyclicI_rank)
  fix a b :: Id
  assume "(a, b) \<in> parentRel exChain"
  then show "nat (3 - a) < nat (3 - b)"
    by (auto simp: parentRel_def exChain_def exType_def)
qed

lemma nonnegCounts_numAt: "nonnegCounts counts \<Longrightarrow> 0 \<le> numAt counts k"
  by (auto simp: nonnegCounts_def numAt_def split: option.splits)

lemma aboveCounts_numAt:
  "aboveCounts counts result \<Longrightarrow> k \<in> dom result \<Longrightarrow> numAt counts k \<le> numAt result k"
  by (auto simp: aboveCounts_def numAt_def)

lemma aboveCounts_update:
  "aboveCounts counts result \<Longrightarrow> numAt counts k \<le> v \<Longrightarrow> aboveCounts counts (result(k \<mapsto> v))"
  by (simp add: aboveCounts_def)

lemma aggregate_above:
  shows
    "nonnegCounts counts \<Longrightarrow> aboveCounts counts result \<Longrightarrow>
       aboveCounts counts (fst (getTotalCount result i cb counts)) \<and>
       fst (getTotalCount result i cb counts) i = Some (snd (getTotalCount result i cb counts))"
  and
    "nonnegCounts counts \<Longrightarrow> aboveCounts counts result \<Longrightarrow> i \<in> dom result \<Longrightarrow>
       aboveCounts counts (forEachChild result i cs cb counts) \<and>
       i \<in> dom (forEachChild result i cs cb counts)"
proof (induction result i cb counts and result i cs cb counts
    rule: getTotalCount_forEachChild.induct)
  case (1 result i cb counts)
  show ?case
  proof (cases "result i")
    case (Some v)
    with "1.prems" show ?thesis by (simp add: getTotalCount.simps)
  next
    case None
    define r' where
      "r' = forEachChild (result(i \<mapsto> numAt counts i)) i (childrenOf cb i) cb counts"
    have g: "getTotalCount result i cb counts = (r', numAt r' i)"
      using None by (simp add: getTotalCount.simps r'_def Let_def)
    have u: "aboveCounts counts (result(i \<mapsto> numAt counts i))"
      using "1.prems"(2) by (rule aboveCounts_update) simp
    have d: "i \<in> dom (result(i \<mapsto> numAt counts i))"
      by simp
    have "aboveCounts counts r' \<and> i \<in> dom r'"
      unfolding r'_def by (rule "1.IH" [OF None "1.prems"(1) u d])
    then show ?thesis
      by (auto simp: g numAt_def)
  qed
next
  case (2 result i cb counts)
  then show ?case by simp
next
  case (3 result i childId rest cb counts)
  define r1 where "r1 = fst (getTotalCount result childId cb counts)"
  define t where "t = snd (getTotalCount result childId cb counts)"
  have g: "(r1, t) = getTotalCount result childId cb counts"
    by (simp add: r1_def t_def)
  have p: "aboveCounts counts r1 \<and> r1 childId = Some t"
    unfolding r1_def t_def using "3.IH"(1) [OF refl "3.prems"(1,2)] .
  then have "numAt counts childId \<le> t"
    by (simp add: aboveCounts_def)
  with nonnegCounts_numAt [OF "3.prems"(1), of childId] have "0 \<le> t"
    by simp
  moreover have "numAt counts i \<le> numAt result i"
    using "3.prems"(2,3) by (rule aboveCounts_numAt)
  ultimately have "numAt counts i \<le> numAt result i + t"
    by simp
  with p have u: "aboveCounts counts (r1(i \<mapsto> numAt result i + t))"
    by (simp add: aboveCounts_update)
  have d: "i \<in> dom (r1(i \<mapsto> numAt result i + t))"
    by simp
  have f: "forEachChild result i (childId # rest) cb counts =
      forEachChild (r1(i \<mapsto> numAt result i + t)) i rest cb counts"
    by (simp add: Let_def g [symmetric])
  show ?case
    unfolding f by (rule "3.IH"(2) [OF refl g "3.prems"(1) u d])
qed

lemma forIn_above:
  assumes "nonnegCounts counts"
  shows "aboveCounts counts result \<Longrightarrow>
    aboveCounts counts (foldl (\<lambda>result i. fst (getTotalCount result i cb counts)) result ks)"
proof (induction ks arbitrary: result)
  case Nil
  then show ?case by simp
next
  case (Cons k ks)
  from aggregate_above(1) [OF assms Cons.prems, of k cb]
  have "aboveCounts counts (fst (getTotalCount result k cb counts))" by simp
  from Cons.IH [OF this] show ?case by simp
qed

lemma calculateAggregatedCounts_above:
  assumes "nonnegCounts counts"
  shows "aboveCounts counts (calculateAggregatedCounts cb counts)"
  unfolding calculateAggregatedCounts_def
  by (rule forIn_above [OF assms]) (simp add: aboveCounts_def)

lemma calculateAggregatedCounts_nonneg:
  assumes "nonnegCounts counts"
  shows "0 \<le> numAt (calculateAggregatedCounts cb counts) i"
proof (cases "i \<in> dom (calculateAggregatedCounts cb counts)")
  case True
  from aboveCounts_numAt [OF calculateAggregatedCounts_above [OF assms] True]
    nonnegCounts_numAt [OF assms, of i]
  show ?thesis by simp
next
  case False
  then show ?thesis by (simp add: numAt_def dom_def)
qed

lemma getAggregatedCount_outside:
  assumes "acyclic (parentRel lts)" and "i \<notin> id_lt ` set lts \<union> parentId ` set lts"
  shows "getAggregatedCount (createTypesFrequency (createTypesAccess lts) counts) i = 0"
proof -
  have "i \<notin> dom (calculateAggregatedCounts (snd (buildIndices lts)) counts)"
    using assms by (simp only: dom_aggregated not_False_eq_True)
  then show ?thesis
    by (simp add: getAggregatedCount_def aggregated_createTypesFrequency numAt_def dom_def)
qed

lemma nonneg_exCounts: "nonnegCounts exCounts"
  by (simp add: nonnegCounts_def exCounts_def)

lemma aggregated_exChain:
  "getAggregatedCount (createTypesFrequency (createTypesAccess exChain) exCounts) 1 = 6"
  "getAggregatedCount (createTypesFrequency (createTypesAccess exChain) exCounts) 2 = 5"
  "getAggregatedCount (createTypesFrequency (createTypesAccess exChain) exCounts) 3 = 3"
  by code_simp+

lemma children_exChain:
  "map id_lt (filter (\<lambda>r. parentId r = j) exChain) =
     (if j = 0 then [1] else if j = 1 then [2] else if j = 2 then [3] else [])"
  by (simp add: exChain_def exType_def)

lemma safeSums_exChain: "safeSums exChain exCounts"
  unfolding safeSums_def children_exChain
proof
  fix j :: Id
  have "\<bar>numAt exCounts k\<bar> \<le> 3" for k
    by (simp add: numAt_def exCounts_def)
  from this [of 0] this [of 1] this [of 2] this [of j] show "\<bar>numAt exCounts j\<bar> +
      sum_list (map (\<lambda>c. \<bar>getAggregatedCount (createTypesFrequency (createTypesAccess exChain) exCounts) c\<bar>)
        (if j = 0 then [1] else if j = 1 then [2] else if j = 2 then [3] else [])) \<le> 2 ^ 53"
    by (simp add: aggregated_exChain)
qed

lemma localizedTypes_filter_tf:
  "localizedTypes (filter_tf this p) = filter p (localizedTypes this)"
  by (simp add: filter_tf_def Let_def newTypesFrequency_def split: prod.splits)

lemma foldl_freqStep:
  "foldl (freqStep cnts) (ii, nc, cb) tis =
     (fst (foldl indexStep (ii, cb) tis),
      foldl (\<lambda>nc ti. nc(id_lt (fst ti) := cnts (id_lt (fst ti)))) nc tis,
      snd (foldl indexStep (ii, cb) tis))"
  by (induction tis arbitrary: ii nc cb) (auto simp: freqStep_def indexStep_def)

text \<open>
  \<open>TypesFrequency.filter\<close> builds what \<open>createTypesFrequency\<close> builds over the index
  builder's instance of the filtered list, for the counts it carried over.
\<close>

lemma filter_tf_createTypesFrequency:
  "\<exists>counts. filter_tf this predicate =
     createTypesFrequency (createTypesAccess (filter predicate (localizedTypes this))) counts"
  by (auto simp: filter_tf_def Let_def foldl_freqStep createTypesFrequency_def
      createTypesAccess_def buildIndices_def split: prod.splits)

lemma getAggregatedCount_nonneg:
  assumes "nonnegCounts counts"
  shows "0 \<le> getAggregatedCount (createTypesFrequency a counts) i"
  using calculateAggregatedCounts_nonneg [OF assms]
  by (simp add: getAggregatedCount_def createTypesFrequency_def newTypesFrequency_def)

lemma dom_mono:
  "dom result \<subseteq> dom (fst (getTotalCount result i cb counts))"
  "dom result \<subseteq> dom (forEachChild result i cs cb counts)"
proof (induction result i cb counts and result i cs cb counts
    rule: getTotalCount_forEachChild.induct)
  case (1 result i cb counts)
  show ?case
  proof (cases "result i")
    case None
    have g: "fst (getTotalCount result i cb counts) =
        forEachChild (result(i \<mapsto> numAt counts i)) i (childrenOf cb i) cb counts"
      using None by (simp add: getTotalCount.simps Let_def)
    have "dom result \<subseteq> dom (result(i \<mapsto> numAt counts i))" by auto
    then show ?thesis
      unfolding g using "1.IH" [OF None] by (rule subset_trans)
  next
    case (Some v)
    then show ?thesis by (simp add: getTotalCount.simps)
  qed
next
  case (2 result i cb counts)
  show ?case by simp
next
  case (3 result i childId rest cb counts)
  define r1 where "r1 = fst (getTotalCount result childId cb counts)"
  define t where "t = snd (getTotalCount result childId cb counts)"
  have g: "(r1, t) = getTotalCount result childId cb counts"
    by (simp add: r1_def t_def)
  have f: "forEachChild result i (childId # rest) cb counts =
      forEachChild (r1(i \<mapsto> numAt result i + t)) i rest cb counts"
    by (simp add: Let_def g [symmetric])
  have "dom result \<subseteq> dom r1"
    unfolding r1_def by (rule "3.IH"(1) [OF refl])
  then have "dom result \<subseteq> dom (r1(i \<mapsto> numAt result i + t))" by auto
  then show ?case
    unfolding f using "3.IH"(2) [OF refl g] by (rule subset_trans)
qed

lemma depth_suffices:
  shows "card (liveKeys cb result) < depth \<Longrightarrow>
      getTotalCountD depth result i cb counts = Some (getTotalCount result i cb counts)"
    and "cs = [] \<or> card (liveKeys cb result) < depth \<Longrightarrow>
      forEachChildD depth result i cs cb counts = Some (forEachChild result i cs cb counts)"
proof (induction result i cb counts and result i cs cb counts arbitrary: depth and depth
    rule: getTotalCount_forEachChild.induct)
  case (1 result i cb counts)
  from "1.prems" obtain d where d: "depth = Suc d"
    by (cases depth) simp_all
  show ?case
  proof (cases "result i")
    case (Some v)
    then show ?thesis by (simp add: d getTotalCount.simps)
  next
    case None
    have "childrenOf cb i = [] \<or> card (liveKeys cb (result(i \<mapsto> numAt counts i))) < d"
      using liveKeys_visit [of cb i result "numAt counts i"] None "1.prems" d by fastforce
    from "1.IH" [OF None this]
    have "forEachChildD d (result(i \<mapsto> numAt counts i)) i (childrenOf cb i) cb counts =
        Some (forEachChild (result(i \<mapsto> numAt counts i)) i (childrenOf cb i) cb counts)" .
    with None show ?thesis
      by (simp add: d getTotalCount.simps Let_def)
  qed
next
  case (2 result i cb counts)
  show ?case by simp
next
  case (3 result i childId rest cb counts)
  define r1 where "r1 = fst (getTotalCount result childId cb counts)"
  define t where "t = snd (getTotalCount result childId cb counts)"
  have g: "(r1, t) = getTotalCount result childId cb counts"
    by (simp add: r1_def t_def)
  from "3.prems" have c: "card (liveKeys cb result) < depth" by simp
  have a: "getTotalCountD depth result childId cb counts = Some (r1, t)"
    using "3.IH"(1) [OF refl c] g by simp
  have "dom result \<subseteq> dom (r1(i \<mapsto> numAt result i + t))"
    using dom_mono(1) [of result childId cb counts] by (auto simp: r1_def)
  from liveKeys_antimono [OF this, of cb] c
  have "rest = [] \<or> card (liveKeys cb (r1(i \<mapsto> numAt result i + t))) < depth"
    by simp
  from "3.IH"(2) [OF refl g this]
  have "forEachChildD depth (r1(i \<mapsto> numAt result i + t)) i rest cb counts =
      Some (forEachChild (r1(i \<mapsto> numAt result i + t)) i rest cb counts)" .
  with a show ?case
    by (simp add: Let_def g [symmetric])
qed

lemma card_liveKeys_le: "card (liveKeys cb result) \<le> length cb"
proof -
  have "card (liveKeys cb result) \<le> card (set (map fst cb))"
    by (rule card_mono) (auto simp: liveKeys_def)
  also have "\<dots> \<le> length (map fst cb)" by (rule card_length)
  finally show ?thesis by simp
qed

lemma forInD_suffices:
  assumes "length cb < depth"
  shows "forInD depth result ks cb counts =
     Some (foldl (\<lambda>result i. fst (getTotalCount result i cb counts)) result ks)"
proof (induction ks arbitrary: result)
  case Nil
  show ?case by simp
next
  case (Cons k ks)
  have "card (liveKeys cb result) < depth"
    using card_liveKeys_le [of cb result] assms by simp
  from depth_suffices(1) [OF this, of k counts] Cons.IH show ?case
    by (simp split: prod.splits)
qed

lemma calculateAggregatedCountsD_suffices:
  "length cb < depth \<Longrightarrow>
     calculateAggregatedCountsD depth cb counts = Some (calculateAggregatedCounts cb counts)"
  by (simp add: calculateAggregatedCountsD_def calculateAggregatedCounts_def forInD_suffices)

section \<open>Properties of the display order and the factory\<close>

lemma displayKey_le:
  "displayKey a \<le> displayKey b \<longleftrightarrow>
     (scientificName a \<noteq> [] \<and> scientificName b = []) \<or>
     ((scientificName a = [] \<longleftrightarrow> scientificName b = []) \<and>
      (scientificName a < scientificName b \<or>
       scientificName a = scientificName b \<and>
       (taxonomicRank b < taxonomicRank a \<or>
        taxonomicRank a = taxonomicRank b \<and> commonName a \<le> commonName b)))"
  by (auto simp: displayKey_def less_eq_prod_def less_prod_def)

lemma toDisplayOrder_nth_le:
  assumes "i < j" and "j < length (toDisplayOrder lts)"
  shows "displayKey (toDisplayOrder lts ! i) \<le> displayKey (toDisplayOrder lts ! j)"
proof -
  have "sorted (map displayKey (toDisplayOrder lts))"
    by (simp add: toDisplayOrder_def)
  from sorted_nth_mono [OF this, of i j] assms show ?thesis
    by simp
qed

lemma typesAccessInLanguage_eq:
  "typesAccessInLanguage types language =
     createTypesAccess (toDisplayOrder (map (\<lambda>t. localize t language) types @
       (if list_ex (\<lambda>t. pending t = Some True) types then [pendingReview] else [])))"
  by (simp add: typesAccessInLanguage_def Let_def)

lemma id_lt_localize [simp]: "id_lt (localize t language) = id_st t"
  by (simp add: localize_def Let_def)

lemma length_filter_toDisplayOrder:
  "length (filter P (toDisplayOrder lts)) = length (filter P lts)"
proof -
  have "mset (filter P (toDisplayOrder lts)) = mset (filter P lts)"
    by (simp add: toDisplayOrder_def)
  then show ?thesis
    by (rule mset_eq_length)
qed

section \<open>Properties of the store model\<close>

lemma deref_Some: "deref h r = Some obj \<longleftrightarrow> r < length h \<and> h ! r = obj"
  by (auto simp: deref_def)

lemma readChildren_frame:
  "(\<And>a. a \<in> snd ` set c \<Longrightarrow> deref h' a = deref h a) \<Longrightarrow> readChildren h' c = readChildren h c"
proof (induction c)
  case Nil
  show ?case by simp
next
  case (Cons ka c)
  obtain k a where ka: "ka = (k, a)" by (cases ka)
  have "deref h' a = deref h a" using Cons.prems [of a] by (simp add: ka)
  moreover have "readChildren h' c = readChildren h c"
    using Cons.prems by (intro Cons.IH) simp
  ultimately show ?case by (simp add: ka cong: option.case_cong object.case_cong)
qed

lemma readChildren_refs:
  "readChildren h c = Some cs \<Longrightarrow> a \<in> snd ` set c \<Longrightarrow> a < length h"
proof (induction c arbitrary: cs)
  case Nil
  then show ?case by simp
next
  case (Cons kb c)
  obtain k b where kb: "kb = (k, b)" by (cases kb)
  from Cons.prems(1) obtain xs cs' where
    "deref h b = Some (Ids xs)" "readChildren h c = Some cs'"
    by (auto simp: kb split: option.splits object.splits)
  with Cons.IH [of cs'] Cons.prems(2) show ?case
    by (auto simp: kb deref_Some)
qed

lemma readChildren_keys:
  "readChildren h c = Some cs \<Longrightarrow> map fst cs = map fst c"
proof (induction c arbitrary: cs)
  case Nil
  then show ?case by simp
next
  case (Cons kb c)
  obtain k b where kb: "kb = (k, b)" by (cases kb)
  from Cons.prems obtain xs cs' where
    "cs = (k, xs) # cs'" "readChildren h c = Some cs'"
    by (auto simp: kb split: option.splits object.splits)
  with Cons.IH [of cs'] show ?case
    by (simp add: kb)
qed

lemma readChildren_map_of_None:
  assumes "readChildren h c = Some cs"
  shows "(map_of cs p = None) = (map_of c p = None)"
  using readChildren_keys [OF assms] by (simp add: map_of_eq_None_iff) (metis list.set_map)

lemma readChildren_map_of_Some:
  "readChildren h c = Some cs \<Longrightarrow> map_of c p = Some a \<Longrightarrow>
     \<exists>xs. deref h a = Some (Ids xs) \<and> map_of cs p = Some xs"
proof (induction c arbitrary: cs)
  case Nil
  then show ?case by simp
next
  case (Cons kb c)
  obtain k b where kb: "kb = (k, b)" by (cases kb)
  from Cons.prems(1) obtain xs cs' where
    x: "deref h b = Some (Ids xs)" "readChildren h c = Some cs'" "cs = (k, xs) # cs'"
    by (auto simp: kb split: option.splits object.splits)
  show ?case
  proof (cases "k = p")
    case True
    with Cons.prems(2) x show ?thesis by (simp add: kb)
  next
    case False
    with Cons.prems(2) have "map_of c p = Some a" by (simp add: kb)
    from Cons.IH [OF x(2) this] False x(3) show ?thesis by simp
  qed
qed

lemma update_absent: "map_of al k = None \<Longrightarrow> AList.update k v al = al @ [(k, v)]"
  by (induction al) (auto split: if_splits)

lemma readChildren_snoc:
  "readChildren h c = Some cs \<Longrightarrow> deref h a = Some (Ids xs) \<Longrightarrow>
     readChildren h (c @ [(k, a)]) = Some (cs @ [(k, xs)])"
proof (induction c arbitrary: cs)
  case Nil
  then show ?case by simp
next
  case (Cons kb c)
  obtain k' b where kb: "kb = (k', b)" by (cases kb)
  from Cons.prems(1) obtain ys cs' where
    x: "deref h b = Some (Ids ys)" "readChildren h c = Some cs'" "cs = (k', ys) # cs'"
    by (auto simp: kb split: option.splits object.splits)
  from Cons.IH [OF x(2) Cons.prems(2)] x show ?case
    by (simp add: kb)
qed

lemma readChildren_write:
  "readChildren h c = Some cs \<Longrightarrow> map_of c p = Some a \<Longrightarrow> distinct (map snd c) \<Longrightarrow>
     readChildren (h[a := Ids v]) c = Some (AList.update p v cs)"
proof (induction c arbitrary: cs)
  case Nil
  then show ?case by simp
next
  case (Cons kb c)
  obtain k b where kb: "kb = (k, b)" by (cases kb)
  from Cons.prems(1) obtain xs cs' where
    x: "deref h b = Some (Ids xs)" "readChildren h c = Some cs'" "cs = (k, xs) # cs'"
    by (auto simp: kb split: option.splits object.splits)
  from Cons.prems(3) have d: "b \<notin> snd ` set c" "distinct (map snd c)"
    by (simp_all add: kb)
  show ?case
  proof (cases "k = p")
    case True
    with Cons.prems(2) have ab: "a = b" by (simp add: kb)
    have "readChildren (h[a := Ids v]) c = readChildren h c"
    proof (rule readChildren_frame)
      fix r assume "r \<in> snd ` set c"
      with d ab have "r \<noteq> a" by auto
      then show "deref (h[a := Ids v]) r = deref h r" by (simp add: deref_def)
    qed
    moreover have "deref (h[a := Ids v]) b = Some (Ids v)"
      using x(1) ab by (simp add: deref_Some)
    ultimately show ?thesis
      using x True by (simp add: kb)
  next
    case False
    with Cons.prems(2) have m: "map_of c p = Some a" by (simp add: kb)
    then have "a \<in> snd ` set c" by (auto dest: map_of_SomeD intro: rev_image_eqI)
    with d have "a \<noteq> b" by auto
    with x(1) have "deref (h[a := Ids v]) b = Some (Ids xs)" by (simp add: deref_Some)
    with Cons.IH [OF x(2) m d(2)] x False show ?thesis
      by (simp add: kb)
  qed
qed

lemma stepS_building:
  assumes b: "building base h ii cb m cs"
  shows "\<exists>h'. stepS h ii cb type index = Some h' \<and> length h \<le> length h' \<and>
     (\<forall>r < base. h' ! r = h ! r) \<and>
     building base h' ii cb (m(id_lt type \<mapsto> index)) (pushChild cs (parentId type) (id_lt type))"
proof -
  from b obtain c where
    ii: "base \<le> ii" "ii < length h" "h ! ii = Index m"
    and cb: "base \<le> cb" "cb < length h" "ii \<noteq> cb" "h ! cb = Children c"
    and rc: "readChildren h c = Some cs"
    and dc: "distinct (map snd c)"
    and refs: "\<And>a. a \<in> snd ` set c \<Longrightarrow> base \<le> a \<and> a \<noteq> ii \<and> a \<noteq> cb"
    unfolding building_def by blast
  define h1 where "h1 = h[ii := Index (m(id_lt type \<mapsto> index))]"
  have l1: "length h1 = length h" by (simp add: h1_def)
  have d0: "deref h ii = Some (Index m)" using ii by (simp add: deref_Some)
  have d1: "deref h1 cb = Some (Children c)" using cb by (simp add: deref_Some h1_def)
  have same1: "deref h1 r = deref h r" if "r \<noteq> ii" for r
    using that by (simp add: deref_def h1_def)
  have rc1: "readChildren h1 c = Some cs"
    using readChildren_frame [of c h1 h] same1 refs rc by auto
  show ?thesis
  proof (cases "map_of c (parentId type)")
    case (Some a)
    from readChildren_map_of_Some [OF rc1 Some] obtain xs where
      xs: "deref h1 a = Some (Ids xs)" "map_of cs (parentId type) = Some xs"
      by blast
    from Some have "a \<in> snd ` set c" by (auto dest: map_of_SomeD intro: rev_image_eqI)
    from refs [OF this] have a: "base \<le> a" "a \<noteq> ii" "a \<noteq> cb" by simp_all
    define h3 where "h3 = h1[a := Ids (xs @ [id_lt type])]"
    have st: "stepS h ii cb type index = Some h3"
      by (simp add: stepS_def d0 Let_def h1_def [symmetric] d1 Some xs h3_def)
    have pc: "pushChild cs (parentId type) (id_lt type) =
        AList.update (parentId type) (xs @ [id_lt type]) cs"
      using xs(2) by (simp add: pushChild_def childrenOf_def)
    have "readChildren h3 c = Some (pushChild cs (parentId type) (id_lt type))"
      unfolding h3_def pc using rc1 Some dc by (rule readChildren_write)
    moreover have "h3 ! ii = Index (m(id_lt type \<mapsto> index))"
      using ii a by (simp add: h3_def h1_def)
    moreover have "h3 ! cb = Children c"
      using cb a by (simp add: h3_def h1_def)
    moreover have "length h3 = length h" by (simp add: h3_def h1_def)
    ultimately have "building base h3 ii cb (m(id_lt type \<mapsto> index))
        (pushChild cs (parentId type) (id_lt type))"
      unfolding building_def using ii cb dc refs by auto
    moreover have "\<forall>r < base. h3 ! r = h ! r"
      using ii a by (simp add: h3_def h1_def)
    ultimately show ?thesis
      using st by (simp add: h3_def h1_def)
  next
    case None
    define a where "a = length h"
    define c' where "c' = c @ [(parentId type, a)]"
    define h2 where "h2 = (h1 @ [Ids []])[cb := Children c']"
    define h3 where "h3 = h2[a := Ids [id_lt type]]"
    have up: "AList.update (parentId type) a c = c'"
      using None by (simp add: update_absent c'_def)
    have d2: "deref h2 a = Some (Ids [])"
      using cb by (simp add: deref_Some h2_def a_def l1 nth_append)
    have st: "stepS h ii cb type index = Some h3"
      using d2 by (simp add: stepS_def d0 Let_def h1_def [symmetric] d1 None alloc_def l1
          a_def [symmetric] up h2_def [symmetric] h3_def)
    have l3: "length h3 = Suc (length h)"
      by (simp add: h3_def h2_def l1)
    have old: "h3 ! r = h1 ! r" if "r < length h" "r \<noteq> cb" for r
      using that by (simp add: h3_def h2_def a_def nth_append l1)
    have fresh: "r < length h" if "r \<in> snd ` set c" for r
      using readChildren_refs [OF rc that] .
    have "readChildren h3 c = readChildren h1 c"
    proof (rule readChildren_frame)
      fix r assume r: "r \<in> snd ` set c"
      from fresh [OF r] refs [OF r] old [of r] show "deref h3 r = deref h1 r"
        by (simp add: deref_def l3 l1)
    qed
    with rc1 have "readChildren h3 c = Some cs" by simp
    moreover have "deref h3 a = Some (Ids [id_lt type])"
      by (simp add: deref_Some h3_def h2_def a_def l1)
    ultimately have "readChildren h3 c' = Some (cs @ [(parentId type, [id_lt type])])"
      unfolding c'_def by (rule readChildren_snoc)
    moreover have "pushChild cs (parentId type) (id_lt type) = cs @ [(parentId type, [id_lt type])]"
      using readChildren_map_of_None [OF rc, of "parentId type"] None
      by (simp add: pushChild_def childrenOf_def update_absent)
    ultimately have r3: "readChildren h3 c' = Some (pushChild cs (parentId type) (id_lt type))"
      by simp
    have i3: "h3 ! ii = Index (m(id_lt type \<mapsto> index))"
      using old [of ii] ii cb by (simp add: h1_def)
    have c3: "h3 ! cb = Children c'"
      using cb by (simp add: h3_def h2_def a_def l1)
    have dc': "distinct (map snd c')"
      using dc fresh by (auto simp: c'_def a_def)
    have refs': "base \<le> r \<and> r \<noteq> ii \<and> r \<noteq> cb" if "r \<in> snd ` set c'" for r
      using that refs ii cb by (auto simp: c'_def a_def)
    have "building base h3 ii cb (m(id_lt type \<mapsto> index))
        (pushChild cs (parentId type) (id_lt type))"
      unfolding building_def using ii cb l3 i3 c3 r3 dc' refs' by auto
    moreover have "\<forall>r < base. h3 ! r = h ! r"
      using old ii cb by (simp add: h1_def)
    ultimately show ?thesis
      using st l3 by simp
  qed
qed

lemma forEachS_building:
  "building base h ii cb m cs \<Longrightarrow>
   \<exists>h'. forEachS h ii cb tis = Some h' \<and> length h \<le> length h' \<and>
     (\<forall>r < base. h' ! r = h ! r) \<and>
     building base h' ii cb (fst (foldl indexStep (m, cs) tis)) (snd (foldl indexStep (m, cs) tis))"
proof (induction tis arbitrary: h m cs)
  case Nil
  then show ?case by simp
next
  case (Cons ti tis)
  obtain type index where ti: "ti = (type, index)" by (cases ti)
  from stepS_building [OF Cons.prems, of type index] obtain h1 where
    s: "stepS h ii cb type index = Some h1" "length h \<le> length h1" "\<forall>r < base. h1 ! r = h ! r"
    and b: "building base h1 ii cb (m(id_lt type \<mapsto> index)) (pushChild cs (parentId type) (id_lt type))"
    by blast
  have i: "indexStep (m, cs) ti =
      (m(id_lt type \<mapsto> index), pushChild cs (parentId type) (id_lt type))"
    by (simp add: indexStep_def ti)
  from Cons.IH [OF b, unfolded i [symmetric]] s show ?case
    by (auto simp: ti i)
qed

lemma readInstance_Some:
  "readInstance h this = Some a \<longleftrightarrow>
     (\<exists>l ii cb c. deref h this = Some (Instance l ii cb) \<and>
        deref h l = Some (Records (localizedTypes a)) \<and>
        deref h ii = Some (Index (idIndex a)) \<and>
        deref h cb = Some (Children c) \<and>
        readChildren h c = Some (childrenById a))"
  by (cases a) (auto simp: readInstance_def split: option.splits object.splits)

lemma deref_frame:
  assumes "length h \<le> length h'" and "\<forall>r < length h. h' ! r = h ! r"
    and "deref h r = Some obj"
  shows "deref h' r = Some obj"
  using assms by (auto simp: deref_Some)

lemma readChildren_frame_Some:
  assumes "length h \<le> length h'" and "\<forall>r < length h. h' ! r = h ! r"
    and "readChildren h c = Some cs"
  shows "readChildren h' c = Some cs"
proof -
  have "readChildren h' c = readChildren h c"
  proof (rule readChildren_frame)
    fix a assume "a \<in> snd ` set c"
    from readChildren_refs [OF assms(3) this] assms(1,2) show "deref h' a = deref h a"
      by (simp add: deref_def)
  qed
  with assms(3) show ?thesis by simp
qed

lemma readInstance_frame:
  assumes "length h \<le> length h'" and "\<forall>r < length h. h' ! r = h ! r"
    and "readInstance h this = Some a"
  shows "readInstance h' this = Some a"
  using assms(3) deref_frame [OF assms(1,2)] readChildren_frame_Some [OF assms(1,2)]
  unfolding readInstance_Some by blast

lemma getTypeS_readInstance:
  assumes "readInstance h this = Some a"
  shows "getTypeS h this i = getType a i"
  using assms unfolding readInstance_Some
  by (auto simp: getTypeS_def getType_def)

lemma createTypesAccessS_correct:
  assumes "deref h l = Some (Records lts)"
  shows "\<exists>h' new. createTypesAccessS h l = Some (h', new) \<and> length h \<le> new \<and>
     new < length h' \<and> (\<forall>r < length h. h' ! r = h ! r) \<and>
     readInstance h' new = Some (createTypesAccess lts)"
proof -
  define ii where "ii = length h"
  define cb where "cb = Suc (length h)"
  define h2 where "h2 = (h @ [Index Map.empty]) @ [Children []]"
  have l: "l < length h" "h ! l = Records lts"
    using assms by (simp_all add: deref_Some)
  have "building (length h) h2 ii cb Map.empty []"
    by (simp add: building_def h2_def ii_def cb_def nth_append)
  from forEachS_building [OF this, of "zip lts [0..<length lts]"] obtain h3 where
    f: "forEachS h2 ii cb (zip lts [0..<length lts]) = Some h3"
    and l3: "length h2 \<le> length h3"
    and fr: "\<forall>r < length h. h3 ! r = h2 ! r"
    and b: "building (length h) h3 ii cb (fst (buildIndices lts)) (snd (buildIndices lts))"
    unfolding buildIndices_def by blast
  define h4 where "h4 = h3 @ [Instance l ii cb]"
  have c: "createTypesAccessS h l = Some (h4, length h3)"
    using f by (simp add: createTypesAccessS_def assms alloc_def ii_def cb_def h2_def h4_def)
  have l2: "length h2 = Suc (Suc (length h))" by (simp add: h2_def)
  have old: "h4 ! r = h ! r" if "r < length h" for r
    using that fr l3 l2 by (simp add: h4_def nth_append h2_def)
  from b obtain c' where
    b': "ii < length h3" "h3 ! ii = Index (fst (buildIndices lts))"
      "cb < length h3" "h3 ! cb = Children c'"
      "readChildren h3 c' = Some (snd (buildIndices lts))"
    unfolding building_def by blast
  have "readChildren h4 c' = Some (snd (buildIndices lts))"
    by (rule readChildren_frame_Some [OF _ _ b'(5)]) (simp_all add: h4_def nth_append)
  then have "readInstance h4 (length h3) = Some (createTypesAccess lts)"
    unfolding readInstance_Some
    using b' l l3 l2 old [of l]
    by (auto simp: deref_Some h4_def nth_append createTypesAccess_def split: prod.splits)
  with c l3 l2 old show ?thesis
    by (simp add: h4_def)
qed

lemma readInstance_exStore: "readInstance exStore 6 = Some exInstance"
  by (simp add: readInstance_def exStore_def exInstance_def deref_def)

section \<open>Claims about TypesAccess\<close>

text \<open>
  C4. Filtering twice with the same predicate gives the same instance as filtering
  once: the same record list, the same \<open>idIndex\<close> and the same \<open>childrenById\<close>.
\<close>

theorem filter_idempotent:
  "filter_ta (filter_ta a p) p = filter_ta a p"
  by (simp add: filter_ta_createTypesAccess)

text \<open>
  C5. The ids of the index built over a record list \<open>L\<close> are the ids of the records of
  \<open>L\<close>. For an id of the index, \<open>getType\<close> returns a record of \<open>L\<close> with that id. For
  any other id, \<open>getType\<close> returns \<open>undefined\<close>, \<open>getCommonName\<close> and
  \<open>getScientificName\<close> return the empty string and \<open>getMenuEntry\<close> returns \<open>null\<close>.
  Every accessor is a total function: none has an error result.
\<close>

theorem accessors_present_absent:
  "dom (idIndex (createTypesAccess L)) = id_lt ` set L \<and>
   (i \<in> dom (idIndex (createTypesAccess L)) \<longrightarrow>
      (\<exists>r. getType (createTypesAccess L) i = Some r \<and> id_lt r = i \<and> r \<in> set L)) \<and>
   (i \<notin> dom (idIndex (createTypesAccess L)) \<longrightarrow>
      getType (createTypesAccess L) i = None \<and>
      getCommonName (createTypesAccess L) i = [] \<and>
      getScientificName (createTypesAccess L) i = [] \<and>
      getMenuEntry (createTypesAccess L) i = None)"
  unfolding dom_idIndex_createTypesAccess
  using getType_createTypesAccess_Some [of i L] arrayAt_createTypesAccess_None [of i L]
  by (simp add: getType_def getCommonName_def getScientificName_def getMenuEntry_def)

theorem accessors_present_absent_witness:
  "(\<exists>r. getType (createTypesAccess exChain) 2 = Some r \<and> id_lt r = 2 \<and> r \<in> set exChain) \<and>
   getType (createTypesAccess exChain) 7 = None \<and>
   getCommonName (createTypesAccess exChain) 7 = [] \<and>
   getScientificName (createTypesAccess exChain) 7 = [] \<and>
   getMenuEntry (createTypesAccess exChain) 7 = None"
proof -
  have i2: "2 \<in> dom (idIndex (createTypesAccess exChain))"
    and i7: "7 \<notin> dom (idIndex (createTypesAccess exChain))"
    using accessors_present_absent [of exChain 0]
    by (simp_all add: exChain_def exType_def)
  from i2 i7 accessors_present_absent [of exChain 2] accessors_present_absent [of exChain 7]
  show ?thesis
    by blast
qed



section \<open>Claims about the aggregation engine and TypesFrequency\<close>

text \<open>
  C1, as the code has it. In a TypesFrequency built over records whose parent relation
  is acyclic, with integer counts whose sums are exact, the aggregated count of every
  id of the hierarchy (the id or the \<open>parentId\<close> of a record) is its own raw count, 0
  when \<open>countsById\<close> has none, plus the sum of the aggregated counts of its direct
  children, the records whose \<open>parentId\<close> it is; the aggregated count of any other id
  is 0.
\<close>

theorem aggregated_count_equation:
  assumes "acyclic (parentRel lts)" and "safeSums lts counts"
  shows "(i \<in> id_lt ` set lts \<union> parentId ` set lts \<longrightarrow>
       getAggregatedCount (createTypesFrequency (createTypesAccess lts) counts) i =
         (case counts i of None \<Rightarrow> 0 | Some n \<Rightarrow> n) +
         sum_list (map (getAggregatedCount (createTypesFrequency (createTypesAccess lts) counts))
           (map id_lt (filter (\<lambda>r. parentId r = i) lts)))) \<and>
     (i \<notin> id_lt ` set lts \<union> parentId ` set lts \<longrightarrow>
       getAggregatedCount (createTypesFrequency (createTypesAccess lts) counts) i = 0)"
proof (intro conjI impI)
  let ?cb = "snd (buildIndices lts)"
  assume i: "i \<in> id_lt ` set lts \<union> parentId ` set lts"
  have ac: "acyclic (childRel ?cb)"
    using assms(1) by (simp add: childRel_buildIndices)
  have "i \<in> dom (calculateAggregatedCounts ?cb counts)"
    using assms(1) i by (simp only: dom_aggregated)
  from calculateAggregatedCounts_correct(2) [OF ac this]
  have "numAt (calculateAggregatedCounts ?cb counts) i =
      numAt counts i + sum_list (map (numAt (calculateAggregatedCounts ?cb counts))
        (map id_lt (filter (\<lambda>r. parentId r = i) lts)))"
    by (simp only: childrenOf_buildIndices)
  moreover have "getAggregatedCount (createTypesFrequency (createTypesAccess lts) counts) =
      numAt (calculateAggregatedCounts ?cb counts)"
    by (rule ext) (simp add: getAggregatedCount_def aggregated_createTypesFrequency)
  ultimately show "getAggregatedCount (createTypesFrequency (createTypesAccess lts) counts) i =
         (case counts i of None \<Rightarrow> 0 | Some n \<Rightarrow> n) +
         sum_list (map (getAggregatedCount (createTypesFrequency (createTypesAccess lts) counts))
           (map id_lt (filter (\<lambda>r. parentId r = i) lts)))"
    by (simp add: numAt_def)
next
  assume "i \<notin> id_lt ` set lts \<union> parentId ` set lts"
  with assms(1) show "getAggregatedCount (createTypesFrequency (createTypesAccess lts) counts) i = 0"
    by (rule getAggregatedCount_outside)
qed

text \<open>
  The chain A, B, C with the counts 1, 2, 3: the equation at C, then at B, then at A
  gives 3, 5 and 6; the id 7 is not in the hierarchy.
\<close>

theorem aggregated_count_equation_witness:
  "acyclic (parentRel exChain) \<and> safeSums exChain exCounts \<and>
   getAggregatedCount (createTypesFrequency (createTypesAccess exChain) exCounts) 1 = 6 \<and>
   getAggregatedCount (createTypesFrequency (createTypesAccess exChain) exCounts) 2 = 5 \<and>
   getAggregatedCount (createTypesFrequency (createTypesAccess exChain) exCounts) 3 = 3 \<and>
   getAggregatedCount (createTypesFrequency (createTypesAccess exChain) exCounts) 7 = 0"
proof -
  let ?tf = "createTypesFrequency (createTypesAccess exChain) exCounts"
  note eq = aggregated_count_equation [OF acyclic_exChain safeSums_exChain]
  have c: "getAggregatedCount ?tf 3 = 3"
    using eq [of 3] by (simp add: exChain_def exType_def exCounts_def)
  have b: "getAggregatedCount ?tf 2 = 5"
    using eq [of 2] c by (simp add: exChain_def exType_def exCounts_def)
  have a: "getAggregatedCount ?tf 1 = 6"
    using eq [of 1] b by (simp add: exChain_def exType_def exCounts_def)
  have d: "getAggregatedCount ?tf 7 = 0"
    using eq [of 7] by (simp add: exChain_def exType_def)
  from a b c d acyclic_exChain safeSums_exChain show ?thesis by simp
qed

text \<open>
  C1, as the claim has it, fails at an id that has a raw count and is neither the id
  nor the \<open>parentId\<close> of a record: with the raw count 4 at the id 7, which has no
  children, the aggregated count of 7 is 0 and not 4.
\<close>

theorem aggregated_count_equation_fails_outside_hierarchy:
  "acyclic (parentRel exChain) \<and>
   getAggregatedCount (createTypesFrequency (createTypesAccess exChain) (exCounts(7 \<mapsto> 4))) 7 = 0 \<and>
   map id_lt (filter (\<lambda>r. parentId r = 7) exChain) = [] \<and>
   getAggregatedCount (createTypesFrequency (createTypesAccess exChain) (exCounts(7 \<mapsto> 4))) 7 \<noteq>
     (case (exCounts(7 \<mapsto> 4)) 7 of None \<Rightarrow> 0 | Some n \<Rightarrow> n) +
     sum_list (map (getAggregatedCount (createTypesFrequency (createTypesAccess exChain) (exCounts(7 \<mapsto> 4))))
       (map id_lt (filter (\<lambda>r. parentId r = 7) exChain)))"
proof -
  have a: "getAggregatedCount (createTypesFrequency (createTypesAccess exChain) (exCounts(7 \<mapsto> 4))) 7 = 0"
    by code_simp
  have f: "map id_lt (filter (\<lambda>r. parentId r = 7) exChain) = []"
    by (simp add: exChain_def exType_def)
  from a f acyclic_exChain show ?thesis
    by simp
qed

text \<open>
  C2, as the code has it. The aggregation terminates on every \<open>childrenById\<close> index,
  with or without a cycle: a stack with room for more nested calls than the index has
  keys is never exhausted, and the bounded run returns what \<open>calculateAggregatedCounts\<close>
  returns.
\<close>

theorem bounded_stack_suffices:
  "length cb < depth \<Longrightarrow>
     calculateAggregatedCountsD depth cb counts = Some (calculateAggregatedCounts cb counts)"
  by (rule calculateAggregatedCountsD_suffices)

text \<open>
  The two records of \<open>exCycle\<close> are each other's parent. Three nested calls are
  enough; the totals are the partial sums \<open>1 + (2 + 1)\<close> for id 1 and \<open>2 + 1\<close> for
  id 2.
\<close>

theorem bounded_stack_suffices_witness:
  "\<not> acyclic (childRel (childrenById (createTypesAccess exCycle))) \<and>
   length (childrenById (createTypesAccess exCycle)) < 3 \<and>
   calculateAggregatedCountsD 3 (childrenById (createTypesAccess exCycle)) exCounts =
     Some (calculateAggregatedCounts (childrenById (createTypesAccess exCycle)) exCounts) \<and>
   getAggregatedCount (createTypesFrequency (createTypesAccess exCycle) exCounts) 1 = 4 \<and>
   getAggregatedCount (createTypesFrequency (createTypesAccess exCycle) exCounts) 2 = 3"
proof -
  have "(id_lt (exType 1 2), parentId (exType 1 2)) \<in> parentRel exCycle"
    and "(id_lt (exType 2 1), parentId (exType 2 1)) \<in> parentRel exCycle"
    unfolding parentRel_def exCycle_def by auto
  then have "(1, 2) \<in> parentRel exCycle" and "(2, 1) \<in> parentRel exCycle"
    by (simp_all add: exType_def)
  then have "(1, 1) \<in> (parentRel exCycle)\<^sup>+"
    by (rule trancl_into_trancl2 [OF _ r_into_trancl])
  then have c: "\<not> acyclic (childRel (childrenById (createTypesAccess exCycle)))"
    by (auto simp: acyclic_def childrenById_createTypesAccess childRel_buildIndices)
  have l: "length (childrenById (createTypesAccess exCycle)) < 3"
    by code_simp
  have a: "getAggregatedCount (createTypesFrequency (createTypesAccess exCycle) exCounts) 1 = 4"
    by code_simp
  have b: "getAggregatedCount (createTypesFrequency (createTypesAccess exCycle) exCounts) 2 = 3"
    by code_simp
  from bounded_stack_suffices [OF l, of exCounts] c l a b show ?thesis
    by simp
qed

text \<open>
  C2, as the claim has it: some index with a cycle on which the recursion is unbounded,
  that is, on which every bound on the stack is exceeded. There is none.
\<close>

theorem no_unbounded_recursion_on_cycles:
  "\<not> (\<exists>cb counts. \<not> acyclic (childRel cb) \<and>
        (\<forall>depth. calculateAggregatedCountsD depth cb counts = None))"
proof
  assume "\<exists>cb counts. \<not> acyclic (childRel cb) \<and>
        (\<forall>depth. calculateAggregatedCountsD depth cb counts = None)"
  then obtain cb counts where "calculateAggregatedCountsD (Suc (length cb)) cb counts = None"
    by blast
  then show False
    by (simp add: calculateAggregatedCountsD_suffices)
qed

text \<open>
  C3, as the code has it. \<open>dropZeroCounts\<close> keeps the records whose aggregated count
  on the receiver is greater than zero, in their order, and removes the others. When
  no raw count is negative, the records it removes are those whose aggregated count on
  the receiver is 0.
\<close>

theorem dropZeroCounts_keeps_positive:
  "localizedTypes (dropZeroCounts tf) =
     filter (\<lambda>r. 0 < getAggregatedCount tf (id_lt r)) (localizedTypes tf) \<and>
   (nonnegCounts counts \<longrightarrow>
      filter (\<lambda>r. r \<notin> set (localizedTypes (dropZeroCounts (createTypesFrequency a counts))))
          (localizedTypes (createTypesFrequency a counts)) =
      filter (\<lambda>r. getAggregatedCount (createTypesFrequency a counts) (id_lt r) = 0)
          (localizedTypes (createTypesFrequency a counts)))"
proof (intro conjI impI)
  show k: "localizedTypes (dropZeroCounts tf) =
     filter (\<lambda>r. 0 < getAggregatedCount tf (id_lt r)) (localizedTypes tf)" for tf
    by (simp add: dropZeroCounts_def localizedTypes_filter_tf)
  assume n: "nonnegCounts counts"
  let ?tf = "createTypesFrequency a counts"
  have "(r \<notin> set (localizedTypes (dropZeroCounts ?tf))) = (getAggregatedCount ?tf (id_lt r) = 0)"
    if "r \<in> set (localizedTypes ?tf)" for r
    using that getAggregatedCount_nonneg [OF n, of a "id_lt r"] by (auto simp: k)
  then show "filter (\<lambda>r. r \<notin> set (localizedTypes (dropZeroCounts ?tf))) (localizedTypes ?tf) =
      filter (\<lambda>r. getAggregatedCount ?tf (id_lt r) = 0) (localizedTypes ?tf)"
    by (rule filter_cong [OF refl])
qed

text \<open>
  The chain with the single count 5 at B: A and B aggregate to 5 and stay, C aggregates
  to 0 and goes.
\<close>

theorem dropZeroCounts_keeps_positive_witness:
  "nonnegCounts [2 \<mapsto> 5] \<and>
   localizedTypes (dropZeroCounts (createTypesFrequency (createTypesAccess exChain) [2 \<mapsto> 5])) =
     [exType 1 0, exType 2 1] \<and>
   filter (\<lambda>r. getAggregatedCount (createTypesFrequency (createTypesAccess exChain) [2 \<mapsto> 5]) (id_lt r) = 0)
     (localizedTypes (createTypesFrequency (createTypesAccess exChain) [2 \<mapsto> 5])) = [exType 3 2]"
proof -
  let ?tf = "createTypesFrequency (createTypesAccess exChain) [2 \<mapsto> 5]"
  have n: "nonnegCounts [2 \<mapsto> 5]"
    by (simp add: nonnegCounts_def)
  have k: "filter (\<lambda>r. 0 < getAggregatedCount ?tf (id_lt r)) (localizedTypes ?tf) =
      [exType 1 0, exType 2 1]"
    by code_simp
  have l: "localizedTypes ?tf = exChain"
    by (simp add: createTypesFrequency_def newTypesFrequency_def)
  have both: "localizedTypes (dropZeroCounts ?tf) = [exType 1 0, exType 2 1] \<and>
      filter (\<lambda>r. r \<notin> set (localizedTypes (dropZeroCounts ?tf))) (localizedTypes ?tf) =
      filter (\<lambda>r. getAggregatedCount ?tf (id_lt r) = 0) (localizedTypes ?tf)"
    using dropZeroCounts_keeps_positive [of ?tf "[2 \<mapsto> 5]" "createTypesAccess exChain"] n
    unfolding k by blast
  from both have d: "localizedTypes (dropZeroCounts ?tf) = [exType 1 0, exType 2 1]"
    by (rule conjunct1)
  from both have r: "filter (\<lambda>r. r \<notin> set (localizedTypes (dropZeroCounts ?tf))) (localizedTypes ?tf) =
      filter (\<lambda>r. getAggregatedCount ?tf (id_lt r) = 0) (localizedTypes ?tf)"
    by (rule conjunct2)
  have "filter (\<lambda>r. r \<notin> set (localizedTypes (dropZeroCounts ?tf))) (localizedTypes ?tf) = [exType 3 2]"
    unfolding d l by (simp add: exChain_def exType_def)
  with n d r show ?thesis
    by simp
qed

text \<open>
  C3, as the claim has it, fails when a raw count is negative: the one record has the
  aggregated count \<open>-1\<close>, which is not 0, and is removed.
\<close>

theorem dropZeroCounts_removes_negative:
  "localizedTypes (createTypesFrequency (createTypesAccess [exType 1 0]) exNegative) = [exType 1 0] \<and>
   getAggregatedCount (createTypesFrequency (createTypesAccess [exType 1 0]) exNegative) 1 = - 1 \<and>
   localizedTypes (dropZeroCounts (createTypesFrequency (createTypesAccess [exType 1 0]) exNegative)) = []"
proof (intro conjI)
  show "localizedTypes (createTypesFrequency (createTypesAccess [exType 1 0]) exNegative) = [exType 1 0]"
    by (simp add: createTypesFrequency_def newTypesFrequency_def)
  show "getAggregatedCount (createTypesFrequency (createTypesAccess [exType 1 0]) exNegative) 1 = - 1"
    by code_simp
  show "localizedTypes (dropZeroCounts (createTypesFrequency (createTypesAccess [exType 1 0]) exNegative)) = []"
    by code_simp
qed

text \<open>
  C10, as the code has it. When no raw count is negative and the parent relation of the
  records is acyclic, \<open>getCount\<close> and \<open>getAggregatedCount\<close> return a nonnegative number
  for every id; for every id of the hierarchy (the id or the \<open>parentId\<close> of a record)
  the aggregated count is at least the raw count; for every other id the aggregated
  count is 0.
\<close>

theorem counts_nonnegative_and_bounded:
  assumes "nonnegCounts counts" and "acyclic (parentRel lts)"
  shows "0 \<le> getCount (createTypesFrequency (createTypesAccess lts) counts) i \<and>
     0 \<le> getAggregatedCount (createTypesFrequency (createTypesAccess lts) counts) i \<and>
     (i \<in> id_lt ` set lts \<union> parentId ` set lts \<longrightarrow>
        getCount (createTypesFrequency (createTypesAccess lts) counts) i
          \<le> getAggregatedCount (createTypesFrequency (createTypesAccess lts) counts) i) \<and>
     (i \<notin> id_lt ` set lts \<union> parentId ` set lts \<longrightarrow>
        getAggregatedCount (createTypesFrequency (createTypesAccess lts) counts) i = 0)"
proof -
  let ?agg = "calculateAggregatedCounts (snd (buildIndices lts)) counts"
  have a: "0 \<le> getCount (createTypesFrequency (createTypesAccess lts) counts) i"
    using nonnegCounts_numAt [OF assms(1), of i]
    by (simp add: getCount_def countsById_createTypesFrequency)
  have b: "0 \<le> getAggregatedCount (createTypesFrequency (createTypesAccess lts) counts) i"
    using calculateAggregatedCounts_nonneg [OF assms(1)]
    by (simp add: getAggregatedCount_def aggregated_createTypesFrequency)
  have c: "getCount (createTypesFrequency (createTypesAccess lts) counts) i
          \<le> getAggregatedCount (createTypesFrequency (createTypesAccess lts) counts) i"
    if "i \<in> id_lt ` set lts \<union> parentId ` set lts"
  proof -
    from that have "i \<in> dom ?agg"
      using assms(2) by (simp only: dom_aggregated)
    from aboveCounts_numAt [OF calculateAggregatedCounts_above [OF assms(1)] this]
    show ?thesis
      by (simp add: getCount_def getAggregatedCount_def countsById_createTypesFrequency
          aggregated_createTypesFrequency)
  qed
  from a b c getAggregatedCount_outside [OF assms(2), of i counts] show ?thesis
    by blast
qed

theorem counts_nonnegative_and_bounded_witness:
  "nonnegCounts exCounts \<and> acyclic (parentRel exChain) \<and>
   getCount (createTypesFrequency (createTypesAccess exChain) exCounts) 2
     \<le> getAggregatedCount (createTypesFrequency (createTypesAccess exChain) exCounts) 2 \<and>
   0 \<le> getCount (createTypesFrequency (createTypesAccess exChain) exCounts) 0 \<and>
   0 \<le> getAggregatedCount (createTypesFrequency (createTypesAccess exChain) exCounts) 0 \<and>
   getAggregatedCount (createTypesFrequency (createTypesAccess exChain) exCounts) 7 = 0"
proof -
  note t = counts_nonnegative_and_bounded [OF nonneg_exCounts acyclic_exChain]
  have "(2::Id) \<in> id_lt ` set exChain \<union> parentId ` set exChain"
    and "(7::Id) \<notin> id_lt ` set exChain \<union> parentId ` set exChain"
    by (simp_all add: exChain_def exType_def)
  with t [of 2] t [of 0] t [of 7] nonneg_exCounts acyclic_exChain show ?thesis
    by blast
qed

text \<open>
  C10, as the claim has it, fails at an id that has a raw count and is neither the id
  nor the \<open>parentId\<close> of a record: the aggregation never visits it.
\<close>

theorem aggregated_below_count_outside_hierarchy:
  "nonnegCounts (exCounts(7 \<mapsto> 4)) \<and> acyclic (parentRel exChain) \<and>
   getCount (createTypesFrequency (createTypesAccess exChain) (exCounts(7 \<mapsto> 4))) 7 = 4 \<and>
   getAggregatedCount (createTypesFrequency (createTypesAccess exChain) (exCounts(7 \<mapsto> 4))) 7 = 0 \<and>
   \<not> getCount (createTypesFrequency (createTypesAccess exChain) (exCounts(7 \<mapsto> 4))) 7
      \<le> getAggregatedCount (createTypesFrequency (createTypesAccess exChain) (exCounts(7 \<mapsto> 4))) 7"
proof -
  have n: "nonnegCounts (exCounts(7 \<mapsto> 4))"
    by (simp add: nonnegCounts_def exCounts_def)
  have c: "getCount (createTypesFrequency (createTypesAccess exChain) (exCounts(7 \<mapsto> 4))) 7 = 4"
    by (simp add: getCount_def countsById_createTypesFrequency numAt_def)
  have a: "getAggregatedCount (createTypesFrequency (createTypesAccess exChain) (exCounts(7 \<mapsto> 4))) 7 = 0"
    by (rule getAggregatedCount_outside [OF acyclic_exChain]) (simp add: exChain_def exType_def)
  from n c a acyclic_exChain show ?thesis by simp
qed

section \<open>Claims about the display order and the factory\<close>

text \<open>
  C6. The records of \<open>typesAccessInLanguage\<close> are the localized input records and,
  when some input record has \<open>pending = true\<close>, one more record, the Pending-Review
  record with id \<open>-1\<close>, \<open>parentId\<close> 0, \<open>taxonomicRank\<close> 0 and the common name
  \<open>Pending Review\<close>; when no input record is pending, nothing is added. When no input
  record has the id \<open>-1\<close> itself, the result has one record with id \<open>-1\<close> in the first
  case and none in the second.
\<close>

theorem pending_review_injected:
  "mset (localizedTypes (typesAccessInLanguage types language)) =
     mset (map (\<lambda>t. localize t language) types) +
       (if \<exists>t \<in> set types. pending t = Some True then {#pendingReview#} else {#}) \<and>
   id_lt pendingReview = - 1 \<and> parentId pendingReview = 0 \<and>
   taxonomicRank pendingReview = 0 \<and> commonName pendingReview = ''Pending Review'' \<and>
   (PENDING_ID \<notin> id_st ` set types \<longrightarrow>
      length (filter (\<lambda>r. id_lt r = - 1) (localizedTypes (typesAccessInLanguage types language))) =
        (if \<exists>t \<in> set types. pending t = Some True then 1 else 0))"
proof (intro conjI impI)
  show "mset (localizedTypes (typesAccessInLanguage types language)) =
     mset (map (\<lambda>t. localize t language) types) +
       (if \<exists>t \<in> set types. pending t = Some True then {#pendingReview#} else {#})"
    by (simp add: typesAccessInLanguage_eq toDisplayOrder_def list_ex_iff)
  show "id_lt pendingReview = - 1" "parentId pendingReview = 0"
    "taxonomicRank pendingReview = 0" "commonName pendingReview = ''Pending Review''"
    by (simp_all add: pendingReview_def PENDING_ID_def)
  assume "PENDING_ID \<notin> id_st ` set types"
  then have "filter (\<lambda>r. id_lt r = - 1) (map (\<lambda>t. localize t language) types) = []"
    by (force simp: filter_empty_conv PENDING_ID_def)
  then show "length (filter (\<lambda>r. id_lt r = - 1) (localizedTypes (typesAccessInLanguage types language))) =
        (if \<exists>t \<in> set types. pending t = Some True then 1 else 0)"
    by (simp add: typesAccessInLanguage_eq length_filter_toDisplayOrder list_ex_iff
        pendingReview_def PENDING_ID_def)
qed

theorem pending_review_injected_witness:
  "PENDING_ID \<notin> id_st ` set [exRaw 1 None, exRaw 2 (Some True)] \<and>
   length (filter (\<lambda>r. id_lt r = - 1)
     (localizedTypes (typesAccessInLanguage [exRaw 1 None, exRaw 2 (Some True)] ''en''))) = 1 \<and>
   PENDING_ID \<notin> id_st ` set [exRaw 1 None, exRaw 2 (Some False)] \<and>
   length (filter (\<lambda>r. id_lt r = - 1)
     (localizedTypes (typesAccessInLanguage [exRaw 1 None, exRaw 2 (Some False)] ''en''))) = 0"
proof -
  have a: "PENDING_ID \<notin> id_st ` set [exRaw 1 None, exRaw 2 (Some True)]"
    and b: "PENDING_ID \<notin> id_st ` set [exRaw 1 None, exRaw 2 (Some False)]"
    by (simp_all add: exRaw_def PENDING_ID_def)
  have p: "\<exists>t \<in> set [exRaw 1 None, exRaw 2 (Some True)]. pending t = Some True"
    and q: "\<not> (\<exists>t \<in> set [exRaw 1 None, exRaw 2 (Some False)]. pending t = Some True)"
    by (simp_all add: exRaw_def)
  from pending_review_injected [of "[exRaw 1 None, exRaw 2 (Some True)]" "''en''"]
    pending_review_injected [of "[exRaw 1 None, exRaw 2 (Some False)]" "''en''"]
    a b p q
  show ?thesis
    by (simp del: set_simps list.set)
qed

text \<open>
  C8. \<open>toDisplayOrder\<close> permutes the records so that, for any two positions
  \<open>i < j\<close>: if the record at \<open>i\<close> has an empty \<open>scientificName\<close>, so has the record at
  \<open>j\<close>; and if the record at \<open>j\<close> has a non-empty \<open>scientificName\<close>, the record at \<open>i\<close>
  has a smaller or equal one, on equal names a greater or equal \<open>taxonomicRank\<close>, and on
  equal ranks too a smaller or equal \<open>commonName\<close>. \<open>typesAccessInLanguage\<close> builds its
  indices over the list in this order.
\<close>

theorem display_order:
  "mset (toDisplayOrder lts) = mset lts \<and>
   (\<forall>i j. i < j \<and> j < length (toDisplayOrder lts) \<longrightarrow>
      (scientificName (toDisplayOrder lts ! i) = [] \<longrightarrow>
         scientificName (toDisplayOrder lts ! j) = []) \<and>
      (scientificName (toDisplayOrder lts ! j) \<noteq> [] \<longrightarrow>
         scientificName (toDisplayOrder lts ! i) \<le> scientificName (toDisplayOrder lts ! j) \<and>
         (scientificName (toDisplayOrder lts ! i) = scientificName (toDisplayOrder lts ! j) \<longrightarrow>
            taxonomicRank (toDisplayOrder lts ! j) \<le> taxonomicRank (toDisplayOrder lts ! i) \<and>
            (taxonomicRank (toDisplayOrder lts ! i) = taxonomicRank (toDisplayOrder lts ! j) \<longrightarrow>
               commonName (toDisplayOrder lts ! i) \<le> commonName (toDisplayOrder lts ! j))))) \<and>
   typesAccessInLanguage types language =
     createTypesAccess (toDisplayOrder (map (\<lambda>t. localize t language) types @
       (if list_ex (\<lambda>t. pending t = Some True) types then [pendingReview] else [])))"
proof (intro conjI allI impI)
  show "mset (toDisplayOrder lts) = mset lts"
    by (simp add: toDisplayOrder_def)
  show "typesAccessInLanguage types language =
     createTypesAccess (toDisplayOrder (map (\<lambda>t. localize t language) types @
       (if list_ex (\<lambda>t. pending t = Some True) types then [pendingReview] else [])))"
    by (rule typesAccessInLanguage_eq)
next
  fix i j
  assume "i < j \<and> j < length (toDisplayOrder lts)"
  then have le: "displayKey (toDisplayOrder lts ! i) \<le> displayKey (toDisplayOrder lts ! j)"
    using toDisplayOrder_nth_le by blast
  {
    assume "scientificName (toDisplayOrder lts ! i) = []"
    with le show "scientificName (toDisplayOrder lts ! j) = []"
      by (auto simp: displayKey_le)
  }
  assume ne: "scientificName (toDisplayOrder lts ! j) \<noteq> []"
  with le show "scientificName (toDisplayOrder lts ! i) \<le> scientificName (toDisplayOrder lts ! j)"
    by (auto simp: displayKey_le)
  assume eq: "scientificName (toDisplayOrder lts ! i) = scientificName (toDisplayOrder lts ! j)"
  with le ne show "taxonomicRank (toDisplayOrder lts ! j) \<le> taxonomicRank (toDisplayOrder lts ! i)"
    by (auto simp: displayKey_le)
  assume "taxonomicRank (toDisplayOrder lts ! i) = taxonomicRank (toDisplayOrder lts ! j)"
  with le ne eq show "commonName (toDisplayOrder lts ! i) \<le> commonName (toDisplayOrder lts ! j)"
    by (auto simp: displayKey_le)
qed

theorem display_order_witness:
  "toDisplayOrder exNames =
     [exNamed ''Abies'' 0 ''Fir'', exNamed ''Malus'' 5 ''Bitter'', exNamed ''Malus'' 5 ''Crab'',
      exNamed ''Malus'' 1 ''Apple'', exNamed [] 0 ''Zed''] \<and>
   scientificName (toDisplayOrder exNames ! 3) \<noteq> [] \<and>
   scientificName (toDisplayOrder exNames ! 2) = scientificName (toDisplayOrder exNames ! 3) \<and>
   taxonomicRank (toDisplayOrder exNames ! 3) \<le> taxonomicRank (toDisplayOrder exNames ! 2) \<and>
   scientificName (toDisplayOrder exNames ! 0) \<le> scientificName (toDisplayOrder exNames ! 3)"
proof -
  have e: "toDisplayOrder exNames =
     [exNamed ''Abies'' 0 ''Fir'', exNamed ''Malus'' 5 ''Bitter'', exNamed ''Malus'' 5 ''Crab'',
      exNamed ''Malus'' 1 ''Apple'', exNamed [] 0 ''Zed'']"
    by code_simp
  have l: "(2::nat) < 3 \<and> 3 < length (toDisplayOrder exNames)"
    and l0: "(0::nat) < 3 \<and> 3 < length (toDisplayOrder exNames)"
    by (simp_all add: e)
  have n: "scientificName (toDisplayOrder exNames ! 3) \<noteq> []"
    and s: "scientificName (toDisplayOrder exNames ! 2) = scientificName (toDisplayOrder exNames ! 3)"
    by (simp_all add: e exNamed_def)
  from display_order [of exNames] l l0 n s e show ?thesis
    by blast
qed

section \<open>Claim about \<open>addType\<close> and its receiver\<close>

text \<open>
  C9. On a store in which \<open>this\<close> refers to an instance, \<open>addType\<close> returns a
  reference to a new object and leaves every object of the store as it was: the
  receiver, its array of records, its \<open>idIndex\<close>, its \<open>childrenById\<close> and the arrays
  that one refers to. The receiver stands for the same instance after the call,
  \<open>getType\<close> on it returns for every id what it returned before, and the new reference
  stands for the instance that \<open>addType\<close> of the first model computes.
\<close>

theorem addType_leaves_receiver_unchanged:
  assumes "readInstance h this = Some a"
  shows "\<exists>h' new. addTypeS h this newType language = Some (h', new) \<and>
     length h \<le> new \<and> new < length h' \<and>
     (\<forall>r < length h. h' ! r = h ! r) \<and>
     readInstance h' this = Some a \<and>
     (\<forall>i. getTypeS h' this i = getTypeS h this i) \<and>
     readInstance h' new = Some (addType a newType language)"
proof -
  from assms obtain l ii cb where
    t: "deref h this = Some (Instance l ii cb)" "deref h l = Some (Records (localizedTypes a))"
    unfolding readInstance_Some by blast
  define h1 where "h1 = h @ [Records (localizedTypes a @ [localize newType language])]"
  have "deref h1 (length h) = Some (Records (localizedTypes a @ [localize newType language]))"
    by (simp add: deref_Some h1_def)
  from createTypesAccessS_correct [OF this] obtain h' new where
    c: "createTypesAccessS h1 (length h) = Some (h', new)"
      "length h1 \<le> new" "new < length h'" "\<forall>r < length h1. h' ! r = h1 ! r"
      "readInstance h' new =
         Some (createTypesAccess (localizedTypes a @ [localize newType language]))"
    by blast
  have s: "addTypeS h this newType language = Some (h', new)"
    by (simp add: addTypeS_def t alloc_def h1_def [symmetric] c(1))
  have len: "length h \<le> length h'" and fr: "\<forall>r < length h. h' ! r = h ! r"
    using c(2,3,4) by (auto simp: h1_def nth_append)
  from readInstance_frame [OF len fr assms] have r: "readInstance h' this = Some a" .
  have "getTypeS h' this i = getTypeS h this i" for i
    by (simp add: getTypeS_readInstance [OF r] getTypeS_readInstance [OF assms])
  with s c(2,3,5) fr r show ?thesis
    by (simp add: h1_def addType_def)
qed

theorem addType_leaves_receiver_unchanged_witness:
  "readInstance exStore 6 = Some exInstance \<and>
   (\<exists>h' new. addTypeS exStore 6 (exRaw 9 None) ''en'' = Some (h', new) \<and>
      length exStore \<le> new \<and>
      h' ! 0 = exStore ! 0 \<and> h' ! 1 = exStore ! 1 \<and> h' ! 2 = exStore ! 2 \<and> h' ! 3 = exStore ! 3 \<and>
      readInstance h' 6 = Some exInstance \<and>
      getTypeS h' 6 2 = getTypeS exStore 6 2 \<and>
      readInstance h' new = Some (addType exInstance (exRaw 9 None) ''en''))"
proof -
  have "length exStore = 7" by (simp add: exStore_def)
  with addType_leaves_receiver_unchanged [OF readInstance_exStore, of "exRaw 9 None" "''en''"]
    readInstance_exStore
  show ?thesis
    by fastforce
qed

end
